theory Spec2Isabelle
  imports
    Complex_Main
    "HOL-Library.Multiset"
    "HOL-Library.Multiset_Order"
    "HOL-Library.Extended_Nat"
    "HOL-Library.Log_Nat"
    "HOL-Library.AList"
    "HOL-Library.Char_ord"
begin

section \<open>The scraper: data model (types of lib/paaScraper and types.ts)\<close>

text \<open>
  A JavaScript string is modelled as the list of its code units; in the scraper the
  code-unit type \<open>'c\<close> is left open, since the traversal and the consensus only
  compare strings for equality and pass them on.  A thrown JavaScript exception is a
  value of type \<open>error\<close>.
\<close>

datatype error = Error string

datatype Device = mobile | desktop

record 'c PAAParams =
  keyword :: "'c list"
  gl :: "'c list"
  hl :: "'c list"
  device :: Device
  p_depth :: int
  p_k :: int
  uule :: "'c list option"
  strict :: bool

record 'c PAAItem =
  raw :: "'c list"
  norm :: "'c list"
  depth :: nat
  parent :: "'c list option"
  domPath :: "'c list"
  orderIdx :: nat

record 'c Evidence =
  fullScreenshotB64 :: "'c list option"
  paaHtml :: "'c list option"
  paaCropsB64 :: "'c list list option"

record 'c PAARunResult =
  items :: "'c PAAItem list"
  evidence :: "'c Evidence"
  serpHash :: "'c list"

text \<open>One entry of the array that \<open>getAccordionItems\<close> reads from the page.\<close>

record 'c acc_item =
  question :: "'c list"
  a_orderIdx :: nat
  path :: "'c list"

text \<open>The entries of the breadth-first queue (\<open>type QNode\<close> in \<open>runSingle\<close>).\<close>

record 'c QNode =
  q_path :: "'c list"
  q_depth :: nat
  q_parent :: "'c list option"

section \<open>The browser as an explicit world\<close>

text \<open>
  Every call that \<open>runSingle\<close> awaits is an operation on a world \<open>'w\<close> (the browser,
  the rendered page, the clock): it returns its value, or the exception it throws, together
  with the next world.  Calls whose rejection the source swallows with
  \<open>.catch(() => {})\<close> only return the next world.  The helpers \<open>hashSERP\<close>,
  \<open>findPAAContainer\<close>, \<open>getAccordionItems\<close> and \<open>waitForChildrenInjected\<close> run inside
  the page and are one operation each; \<open>hashSERP\<close> catches everything and cannot throw.
  The URL, the user agent, the locale and the viewport are functions of the parameters of
  the run, which are fixed for the operations \<open>newContext\<close> and \<open>goto\<close>.
  \<open>normalize\<close>, \<open>String.prototype.trim\<close> and \<open>String.prototype.localeCompare\<close> (the
  collation of the host, used by the consensus to order equal ranks) are pure and are
  passed along with the operations.
\<close>

record ('w, 'c) playwright =
  launch :: "'w \<Rightarrow> error option \<times> 'w"
  newContext :: "'w \<Rightarrow> error option \<times> 'w"
  newPage :: "'w \<Rightarrow> error option \<times> 'w"
  now :: "'w \<Rightarrow> int"
  goto :: "'w \<Rightarrow> error option \<times> 'w"
  waitForLoadState :: "'w \<Rightarrow> 'w"
  queryConsent :: "string \<Rightarrow> 'w \<Rightarrow> (error + bool) \<times> 'w"
  clickConsent :: "'w \<Rightarrow> 'w"
  waitForTimeout :: "'w \<Rightarrow> error option \<times> 'w"
  hashSERP :: "'w \<Rightarrow> 'c list \<times> 'w"
  findPAAContainer :: "'w \<Rightarrow> (error + bool) \<times> 'w"
  pageScreenshot :: "'w \<Rightarrow> (error + 'c list) \<times> 'w"
  paaOuterHTML :: "'w \<Rightarrow> (error + 'c list) \<times> 'w"
  paaScreenshot :: "'w \<Rightarrow> (error + 'c list) \<times> 'w"
  getAccordionItems :: "'w \<Rightarrow> (error + 'c acc_item list) \<times> 'w"
  findButton :: "'c list \<Rightarrow> 'w \<Rightarrow> bool \<times> 'w"
  clickButton :: "'w \<Rightarrow> 'w"
  waitForChildrenInjected :: "'w \<Rightarrow> error option \<times> 'w"
  close :: "'w \<Rightarrow> error option \<times> 'w"
  trim :: "'c list \<Rightarrow> 'c list"
  normalize :: "'c list \<Rightarrow> 'c list"
  localeCompare :: "'c list \<Rightarrow> 'c list \<Rightarrow> int"

section \<open>runSingle: the tree walk\<close>

text \<open>The mutable locals of the traversal: \<open>items\<close>, \<open>seen\<close>, \<open>crops\<close> and \<open>queue\<close>.\<close>

record 'c walk =
  w_items :: "'c PAAItem list"
  w_seen :: "'c list set"
  w_crops :: "'c list list"
  w_queue :: "'c QNode list"

text \<open>
  The body of \<open>for (const it of acc)\<close> for the dequeued \<open>node\<close>.  First the question is
  recorded when its normalized text is new (\<open>recordItem\<close>).  Then, while the node is above
  the requested depth and the budget is not used up, the control is looked for; when it is
  found it is clicked, the children are waited for, a crop is taken and the next level is
  queued.  \<open>pd\<close> is \<open>params.depth\<close> and \<open>maxNodes\<close> the node budget.
\<close>

definition recordItem ::
  "('w, 'c) playwright \<Rightarrow> 'c QNode \<Rightarrow> 'c acc_item \<Rightarrow> 'c walk \<Rightarrow> 'c walk" where
  "recordItem api node it st =
     (let raw' = trim api (question it); norm' = normalize api raw'
      in if norm' \<in> w_seen st then st
         else st\<lparr>w_seen := insert norm' (w_seen st),
                 w_items := w_items st @
                   [\<lparr>raw = raw', norm = norm', depth = q_depth node,
                     parent = q_parent node, domPath = path it,
                     orderIdx = a_orderIdx it\<rparr>]\<rparr>)"

fun forAcc ::
  "('w, 'c) playwright \<Rightarrow> int \<Rightarrow> int \<Rightarrow> 'c QNode \<Rightarrow> 'c acc_item list \<Rightarrow>
   'c walk \<Rightarrow> 'w \<Rightarrow> (error + 'c walk) \<times> 'w" where
  "forAcc api pd maxNodes node [] st w = (Inr st, w)"
| "forAcc api pd maxNodes node (it # acc) st w =
     (let raw' = trim api (question it);
          norm' = normalize api raw';
          st1 = recordItem api node it st
      in if int (q_depth node) < pd \<and> int (length (w_items st1)) < maxNodes then
           (case findButton api raw' w of
              (False, w1) \<Rightarrow> forAcc api pd maxNodes node acc st1 w1
            | (True, w1) \<Rightarrow>
                (case waitForChildrenInjected api (clickButton api w1) of
                   (Some e, w2) \<Rightarrow> (Inl e, w2)
                 | (None, w2) \<Rightarrow>
                     (case paaScreenshot api w2 of
                        (Inl e, w3) \<Rightarrow> (Inl e, w3)
                      | (Inr crop2, w3) \<Rightarrow>
                          forAcc api pd maxNodes node acc
                            (st1\<lparr>w_crops := w_crops st1 @ [crop2],
                                 w_queue := w_queue st1 @
                                   [\<lparr>q_path = path it, q_depth = q_depth node + 1,
                                     q_parent = Some norm'\<rparr>]\<rparr>) w3)))
         else forAcc api pd maxNodes node acc st1 w)"

text \<open>
  One turn of the inner loop either goes on with the recorded state, or with the recorded
  state, one more crop and one more queue entry a level below the node.
\<close>

lemma forAcc_Cons_cases:
  assumes "forAcc api pd maxNodes node (it # acc) st w = (Inr st', w')"
  obtains (leaf) w1 where
      "forAcc api pd maxNodes node acc (recordItem api node it st) w1 = (Inr st', w')"
  | (expanded) crop2 w3 where
      "int (q_depth node) < pd"
      "forAcc api pd maxNodes node acc
         ((recordItem api node it st)
            \<lparr>w_crops := w_crops (recordItem api node it st) @ [crop2],
             w_queue := w_queue (recordItem api node it st) @
               [\<lparr>q_path = path it, q_depth = Suc (q_depth node),
                 q_parent = Some (normalize api (trim api (question it)))\<rparr>]\<rparr>) w3 = (Inr st', w')"
  using assms
  by (auto simp: Let_def split: prod.splits bool.splits option.splits sum.splits if_splits)

lemma recordItem_queue [simp]: "w_queue (recordItem api node it st) = w_queue st"
  by (simp add: recordItem_def Let_def)

text \<open>
  What one pass over a snapshot does to the queue: it only appends, and every appended
  entry is one level below the dequeued node, which was above the requested depth.
\<close>

lemma forAcc_queue:
  "forAcc api pd maxNodes node acc st w = (Inr st', w') \<Longrightarrow>
   \<exists>pushed. w_queue st' = w_queue st @ pushed \<and>
     (\<forall>n \<in> set pushed. q_depth n = Suc (q_depth node) \<and> int (q_depth node) < pd)"
proof (induction acc arbitrary: st w)
  case Nil
  then show ?case by simp
next
  case (Cons it acc)
  from Cons.prems show ?case
  proof (cases rule: forAcc_Cons_cases)
    case (leaf w1)
    from Cons.IH[OF this] show ?thesis by simp
  next
    case (expanded crop2 w3)
    from Cons.IH[OF expanded(2)] expanded(1) show ?thesis by auto
  qed
qed

lemma mset_step: "(\<forall>k \<in># K. k < (a::nat)) \<Longrightarrow> M + K < add_mset a M"
proof -
  assume h: "\<forall>k \<in># K. k < a"
  have "multp (<) (M + K) (M + {#a#})"
    by (rule one_step_implies_multp) (use h in auto)
  then show ?thesis by (simp add: less_multiset_def)
qed

text \<open>
  The levels that the entries of the queue may still open; it decreases in the multiset
  order at every turn of the \<open>while (queue.length)\<close> loop.
\<close>

definition remaining :: "int \<Rightarrow> 'c QNode list \<Rightarrow> nat multiset" where
  "remaining pd q = mset (map (\<lambda>n. nat (pd - int (q_depth n))) q)"

text \<open>
  The loop \<open>while (queue.length)\<close>: leave when the time budget is exceeded, dequeue, read
  the snapshot, walk it, and leave when the node budget is reached.  \<open>started\<close> is the
  clock value taken before the navigation.
\<close>

function bfs ::
  "('w, 'c) playwright \<Rightarrow> int \<Rightarrow> int \<Rightarrow> int \<Rightarrow> int \<Rightarrow> 'c walk \<Rightarrow> 'w \<Rightarrow>
   (error + 'c walk) \<times> 'w" where
  "bfs api pd maxNodes maxMs started st w =
     (case w_queue st of
        [] \<Rightarrow> (Inr st, w)
      | node # rest \<Rightarrow>
          if now api w - started > maxMs then (Inr st, w)
          else
            (case getAccordionItems api w of
               (Inl e, w1) \<Rightarrow> (Inl e, w1)
             | (Inr acc, w1) \<Rightarrow>
                 (case forAcc api pd maxNodes node acc (st\<lparr>w_queue := rest\<rparr>) w1 of
                    (Inl e, w2) \<Rightarrow> (Inl e, w2)
                  | (Inr st2, w2) \<Rightarrow>
                      if int (length (w_items st2)) \<ge> maxNodes then (Inr st2, w2)
                      else bfs api pd maxNodes maxMs started st2 w2)))"
  by pat_completeness auto
termination
proof (relation "inv_image {(M, N). M < N}
         (\<lambda>(api, pd, maxNodes, maxMs, started, st, w). remaining pd (w_queue st))", goal_cases)
  case 1
  show ?case by (rule wf_inv_image) (rule wf_less_multiset)
next
  case (2 api pd maxNodes maxMs started st w node rest x w1 acc xa w2 st2)
  from 2 have "forAcc api pd maxNodes node acc (st\<lparr>w_queue := rest\<rparr>) w1 = (Inr st2, w2)"
    by simp
  from forAcc_queue[OF this] obtain pushed where
    p: "w_queue st2 = rest @ pushed"
       "\<forall>n \<in> set pushed. q_depth n = Suc (q_depth node) \<and> int (q_depth node) < pd"
    by auto
  have "remaining pd (w_queue st2) < remaining pd (w_queue st)"
    unfolding remaining_def 2(1) p(1) using p(2)
    by (auto intro!: mset_step)
  then show ?case by simp
qed

declare bfs.simps [simp del]

text \<open>
  The proof rule of the loop: \<open>I\<close> holds whenever the loop condition is tested, \<open>Q\<close> holds
  when the loop is left (by the empty queue, the time budget or the node budget).
\<close>

lemma bfs_rule:
  "bfs api pd maxNodes maxMs started st w = (Inr st', w') \<Longrightarrow>
   I st \<Longrightarrow>
   (\<And>st. I st \<Longrightarrow> Q st) \<Longrightarrow>
   (\<And>st node rest w acc w1 st2 w2.
      I st \<Longrightarrow> w_queue st = node # rest \<Longrightarrow> getAccordionItems api w = (Inr acc, w1) \<Longrightarrow>
      forAcc api pd maxNodes node acc (st\<lparr>w_queue := rest\<rparr>) w1 = (Inr st2, w2) \<Longrightarrow>
      (if int (length (w_items st2)) \<ge> maxNodes then Q st2 else I st2)) \<Longrightarrow>
   Q st'"
proof (induction api pd maxNodes maxMs started st w rule: bfs.induct)
  case (1 api pd maxNodes maxMs started st w)
  note run = "1.prems"(1) and inv = "1.prems"(2) and fin = "1.prems"(3) and step = "1.prems"(4)
  show ?case
  proof (cases "w_queue st")
    case Nil
    with run fin[OF inv] show ?thesis by (simp add: bfs.simps)
  next
    case (Cons node rest)
    show ?thesis
    proof (cases "now api w - started > maxMs")
      case True
      with Cons run fin[OF inv] show ?thesis by (simp add: bfs.simps)
    next
      case late: False
      obtain r w1 where g: "getAccordionItems api w = (r, w1)"
        by (cases "getAccordionItems api w")
      show ?thesis
      proof (cases r)
        case (Inl e)
        with Cons late g run show ?thesis by (simp add: bfs.simps)
      next
        case (Inr acc)
        obtain r2 w2 where
          f: "forAcc api pd maxNodes node acc (st\<lparr>w_queue := rest\<rparr>) w1 = (r2, w2)"
          by (cases "forAcc api pd maxNodes node acc (st\<lparr>w_queue := rest\<rparr>) w1")
        show ?thesis
        proof (cases r2)
          case (Inl e)
          with Cons late g Inr f run show ?thesis by (simp add: bfs.simps)
        next
          case st2: (Inr st2)
          note s = step[OF inv Cons g[unfolded Inr] f[unfolded st2]]
          show ?thesis
          proof (cases "int (length (w_items st2)) \<ge> maxNodes")
            case True
            with Cons late g Inr f st2 run have "st' = st2"
              by (simp add: bfs.simps)
            with s True show ?thesis by simp
          next
            case False
            with Cons late g Inr f st2 run
            have r: "bfs api pd maxNodes maxMs started st2 w2 = (Inr st', w')"
              by (simp add: bfs.simps)
            from s False have i2: "I st2" by simp
            show ?thesis
              by (rule "1.IH"[OF Cons late g[symmetric] Inr f[symmetric] st2 False r i2 fin step])
          qed
        qed
      qed
    qed
  qed
qed

lemma recordItem_length:
  "length (w_items (recordItem api node it st)) \<le> Suc (length (w_items st))"
  by (simp add: recordItem_def Let_def)

lemma forAcc_items_length:
  "forAcc api pd maxNodes node acc st w = (Inr st', w') \<Longrightarrow>
   length (w_items st') \<le> length (w_items st) + length acc"
proof (induction acc arbitrary: st w)
  case Nil
  then show ?case by simp
next
  case (Cons it acc)
  from Cons.prems show ?case
  proof (cases rule: forAcc_Cons_cases)
    case (leaf w1)
    from Cons.IH[OF this] recordItem_length[of api node it st] show ?thesis by simp
  next
    case (expanded crop2 w3)
    from Cons.IH[OF expanded(2)] recordItem_length[of api node it st] show ?thesis by simp
  qed
qed

text \<open>The items recorded so far have pairwise different normalized texts, all in \<open>seen\<close>.\<close>

definition norms_seen :: "'c walk \<Rightarrow> bool" where
  "norms_seen st \<longleftrightarrow> distinct (map norm (w_items st)) \<and> norm ` set (w_items st) \<subseteq> w_seen st"

lemma recordItem_norms_seen: "norms_seen st \<Longrightarrow> norms_seen (recordItem api node it st)"
  by (auto simp: norms_seen_def recordItem_def Let_def)

lemma forAcc_norms_seen:
  "forAcc api pd maxNodes node acc st w = (Inr st', w') \<Longrightarrow> norms_seen st \<Longrightarrow> norms_seen st'"
proof (induction acc arbitrary: st w)
  case Nil
  then show ?case by simp
next
  case (Cons it acc)
  note r = recordItem_norms_seen[OF Cons.prems(2), of api node it]
  from Cons.prems(1) show ?case
  proof (cases rule: forAcc_Cons_cases)
    case (leaf w1)
    from Cons.IH[OF this r] show ?thesis .
  next
    case (expanded crop2 w3)
    show ?thesis
      by (rule Cons.IH[OF expanded(2)]) (use r in \<open>simp add: norms_seen_def\<close>)
  qed
qed

lemma bfs_items_bound:
  assumes "bfs api pd maxNodes maxMs started st w = (Inr st', w')"
    and "int (length (w_items st)) \<le> max 0 (maxNodes - 1)"
    and snap: "\<And>w acc w'. getAccordionItems api w = (Inr acc, w') \<Longrightarrow> length acc \<le> m"
  shows "int (length (w_items st')) \<le> max 0 (maxNodes - 1) + int m"
proof (rule bfs_rule[OF assms(1), where I = "\<lambda>st. int (length (w_items st)) \<le> max 0 (maxNodes - 1)"
        and Q = "\<lambda>st. int (length (w_items st)) \<le> max 0 (maxNodes - 1) + int m"], goal_cases)
  case 1
  show ?case by (rule assms(2))
next
  case (2 st)
  then show ?case by simp
next
  case (3 st node rest w acc w1 st2 w2)
  from forAcc_items_length[OF 3(4)] snap[OF 3(3)] 3(1)
  show ?case by auto
qed

lemma bfs_norms_seen:
  assumes "bfs api pd maxNodes maxMs started st w = (Inr st', w')" and "norms_seen st"
  shows "norms_seen st'"
proof (rule bfs_rule[OF assms(1), where I = norms_seen and Q = norms_seen], goal_cases)
  case 1
  show ?case by (rule assms(2))
next
  case (2 st)
  then show ?case .
next
  case (3 st node rest w acc w1 st2 w2)
  have "norms_seen (st\<lparr>w_queue := rest\<rparr>)" using 3(1) by (simp add: norms_seen_def)
  from forAcc_norms_seen[OF 3(4) this] show ?case by simp
qed


section \<open>runSingle: the run around the walk\<close>

text \<open>
  The consent screen: the selectors are tried in order; the first button found is clicked
  (a failing click is swallowed), the page is given a second, and the loop is left.
\<close>

definition consentSelectors :: "string list" where
  "consentSelectors =
     [''button:has-text(\"I agree\")'', ''button:has-text(\"Accept all\")'',
      ''button:has-text(\"accept\")'', ''button:has-text(\"Accept\")'']"

fun dismissConsent :: "('w, 'c) playwright \<Rightarrow> string list \<Rightarrow> 'w \<Rightarrow> error option \<times> 'w" where
  "dismissConsent api [] w = (None, w)"
| "dismissConsent api (selector # rest) w =
     (case queryConsent api selector w of
        (Inl e, w1) \<Rightarrow> (Some e, w1)
      | (Inr True, w1) \<Rightarrow> waitForTimeout api (clickConsent api w1)
      | (Inr False, w1) \<Rightarrow> dismissConsent api rest w1)"

text \<open>
  The part of the \<open>try\<close> block after the container has been found, up to the full-page
  screenshot: the initial evidence, the traversal from the root entry, the screenshot.
\<close>

definition walkContainer ::
  "('w, 'c) playwright \<Rightarrow> 'c PAAParams \<Rightarrow> int \<Rightarrow> int \<Rightarrow> int \<Rightarrow> 'c list \<Rightarrow> 'w \<Rightarrow>
   (error + 'c PAARunResult) \<times> 'w" where
  "walkContainer api params maxNodes maxMs started hash w =
     (case paaOuterHTML api w of
        (Inl e, w1) \<Rightarrow> (Inl e, w1)
      | (Inr evidenceHtml, w1) \<Rightarrow>
          (case paaScreenshot api w1 of
             (Inl e, w2) \<Rightarrow> (Inl e, w2)
           | (Inr cropB64, w2) \<Rightarrow>
               (case bfs api (p_depth params) maxNodes maxMs started
                       \<lparr>w_items = [], w_seen = {}, w_crops = [cropB64],
                        w_queue = [\<lparr>q_path = [], q_depth = 0, q_parent = None\<rparr>]\<rparr> w2 of
                  (Inl e, w3) \<Rightarrow> (Inl e, w3)
                | (Inr st, w3) \<Rightarrow>
                    (case pageScreenshot api w3 of
                       (Inl e, w4) \<Rightarrow> (Inl e, w4)
                     | (Inr shot, w4) \<Rightarrow>
                         (Inr \<lparr>items = w_items st,
                               evidence = \<lparr>fullScreenshotB64 = Some shot,
                                            paaHtml = Some evidenceHtml,
                                            paaCropsB64 = Some (w_crops st)\<rparr>,
                               serpHash = hash\<rparr>, w4)))))"

text \<open>
  The \<open>try\<close> block from \<open>browser.newContext\<close> on, without the \<open>browser.close()\<close> that
  precedes each of its two \<open>return\<close>s: it yields the result to return, or the exception
  thrown on the way.
\<close>

definition tryBody ::
  "('w, 'c) playwright \<Rightarrow> 'c PAAParams \<Rightarrow> int \<Rightarrow> int \<Rightarrow> 'w \<Rightarrow>
   (error + 'c PAARunResult) \<times> 'w" where
  "tryBody api params maxNodes maxMs w =
     (case newContext api w of
        (Some e, w1) \<Rightarrow> (Inl e, w1)
      | (None, w1) \<Rightarrow>
     (case newPage api w1 of
        (Some e, w2) \<Rightarrow> (Inl e, w2)
      | (None, w2) \<Rightarrow>
     (let started = now api w2 in
      case goto api w2 of
        (Some e, w3) \<Rightarrow> (Inl e, w3)
      | (None, w3) \<Rightarrow>
     (case dismissConsent api consentSelectors (waitForLoadState api w3) of
        (Some e, w4) \<Rightarrow> (Inl e, w4)
      | (None, w4) \<Rightarrow>
     (case hashSERP api w4 of
        (hash, w5) \<Rightarrow>
     (case findPAAContainer api w5 of
        (Inl e, w6) \<Rightarrow> (Inl e, w6)
      | (Inr False, w6) \<Rightarrow>
          (case pageScreenshot api w6 of
             (Inl e, w7) \<Rightarrow> (Inl e, w7)
           | (Inr shot, w7) \<Rightarrow>
               (Inr \<lparr>items = [],
                     evidence = \<lparr>fullScreenshotB64 = Some shot, paaHtml = None,
                                  paaCropsB64 = None\<rparr>,
                     serpHash = hash\<rparr>, w7))
      | (Inr True, w6) \<Rightarrow>
          walkContainer api params maxNodes maxMs started hash w6))))))"

text \<open>
  \<open>runSingle\<close>.  Besides what it returns or throws and the world it leaves, the model
  counts the calls of \<open>browser.close()\<close>.  When \<open>chromium.launch\<close> throws, \<open>browser\<close> is
  still \<open>null\<close> and the handler rethrows.  The \<open>browser.close()\<close> before a \<open>return\<close>
  stands inside the \<open>try\<close>: when it throws, the handler runs as for any other exception,
  calls \<open>browser.close().catch(() => {})\<close> and rethrows what it caught.
\<close>

record ('w, 'c) run_end =
  outcome :: "error + 'c PAARunResult"
  world :: 'w
  close_calls :: nat

definition closeBrowser :: "('w, 'c) playwright \<Rightarrow> 'w \<times> nat \<Rightarrow> error option \<times> 'w \<times> nat" where
  "closeBrowser api s = (case close api (fst s) of (r, w') \<Rightarrow> (r, w', Suc (snd s)))"

definition catchBlock :: "('w, 'c) playwright \<Rightarrow> error \<Rightarrow> 'w \<times> nat \<Rightarrow> ('w, 'c) run_end" where
  "catchBlock api e s =
     (case closeBrowser api s of
        (_, w', n) \<Rightarrow> \<lparr>outcome = Inl e, world = w', close_calls = n\<rparr>)"

definition runSingle ::
  "('w, 'c) playwright \<Rightarrow> 'c PAAParams \<Rightarrow> int \<Rightarrow> int \<Rightarrow> 'w \<Rightarrow> ('w, 'c) run_end" where
  "runSingle api params maxNodes maxMs w =
     (case launch api w of
        (Some e, w1) \<Rightarrow> \<lparr>outcome = Inl e, world = w1, close_calls = 0\<rparr>
      | (None, w1) \<Rightarrow>
          (case tryBody api params maxNodes maxMs w1 of
             (Inl e, w2) \<Rightarrow> catchBlock api e (w2, 0)
           | (Inr res, w2) \<Rightarrow>
               (case closeBrowser api (w2, 0) of
                  (Some e, s3) \<Rightarrow> catchBlock api e s3
                | (None, w3, n) \<Rightarrow> \<lparr>outcome = Inr res, world = w3, close_calls = n\<rparr>)))"

subsection \<open>What a returned run went through\<close>

lemma walkContainer_Inr:
  assumes "walkContainer api params maxNodes maxMs started hash w = (Inr res, w')"
  obtains cropB64 w2 st w3 where
    "bfs api (p_depth params) maxNodes maxMs started
       \<lparr>w_items = [], w_seen = {}, w_crops = [cropB64],
        w_queue = [\<lparr>q_path = [], q_depth = 0, q_parent = None\<rparr>]\<rparr> w2 = (Inr st, w3)"
    "items res = w_items st"
  using assms unfolding walkContainer_def
  by (auto split: prod.splits sum.splits)

lemma tryBody_Inr:
  assumes "tryBody api params maxNodes maxMs w = (Inr res, w')"
  obtains (not_found) "items res = []"
  | (walked) started hash w6 where
      "walkContainer api params maxNodes maxMs started hash w6 = (Inr res, w')"
  using assms unfolding tryBody_def
  by (auto simp: Let_def split: prod.splits sum.splits option.splits bool.splits)

lemma runSingle_Inr:
  assumes "outcome (runSingle api params maxNodes maxMs w) = Inr res"
  obtains w1 w2 where "launch api w = (None, w1)"
    "tryBody api params maxNodes maxMs w1 = (Inr res, w2)"
  using assms unfolding runSingle_def catchBlock_def closeBrowser_def
  by (auto split: prod.splits sum.splits option.splits)

lemma runSingle_norms_distinct:
  assumes "outcome (runSingle api params maxNodes maxMs w) = Inr res"
  shows "distinct (map norm (items res))"
proof -
  from assms obtain w1 w2 where t: "tryBody api params maxNodes maxMs w1 = (Inr res, w2)"
    by (rule runSingle_Inr)
  from t show ?thesis
  proof (cases rule: tryBody_Inr)
    case not_found
    then show ?thesis by simp
  next
    case (walked started hash w6)
    then obtain cropB64 wa st wb where
      b: "bfs api (p_depth params) maxNodes maxMs started
           \<lparr>w_items = [], w_seen = {}, w_crops = [cropB64],
            w_queue = [\<lparr>q_path = [], q_depth = 0, q_parent = None\<rparr>]\<rparr> wa = (Inr st, wb)"
      and i: "items res = w_items st"
      by (rule walkContainer_Inr)
    have "norms_seen st"
      by (rule bfs_norms_seen[OF b]) (simp add: norms_seen_def)
    with i show ?thesis by (simp add: norms_seen_def)
  qed
qed

lemma runSingle_items_le:
  assumes "outcome (runSingle api params maxNodes maxMs w) = Inr res"
    and snap: "\<And>w acc w'. getAccordionItems api w = (Inr acc, w') \<Longrightarrow> length acc \<le> m"
  shows "int (length (items res)) \<le> max 0 (maxNodes - 1) + int m"
proof -
  from assms(1) obtain w1 w2 where t: "tryBody api params maxNodes maxMs w1 = (Inr res, w2)"
    by (rule runSingle_Inr)
  from t show ?thesis
  proof (cases rule: tryBody_Inr)
    case not_found
    then show ?thesis by simp
  next
    case (walked started hash w6)
    then obtain cropB64 wa st wb where
      b: "bfs api (p_depth params) maxNodes maxMs started
           \<lparr>w_items = [], w_seen = {}, w_crops = [cropB64],
            w_queue = [\<lparr>q_path = [], q_depth = 0, q_parent = None\<rparr>]\<rparr> wa = (Inr st, wb)"
      and i: "items res = w_items st"
      by (rule walkContainer_Inr)
    have "int (length (w_items st)) \<le> max 0 (maxNodes - 1) + int m"
      by (rule bfs_items_bound[OF b _ snap]) simp_all
    with i show ?thesis by simp
  qed
qed

section \<open>Scripted pages\<close>

text \<open>
  Concrete worlds on which the model is run: the world is the number of browsers launched
  so far together with the number of clicks on controls since the last launch; the page
  shows the snapshot \<open>script n c\<close> to the run in browser \<open>n\<close> after \<open>c\<close> clicks, every
  control can be expanded or none, and no call fails.  Strings are compared code unit by
  code unit.  Failing calls are obtained by updating single operations.
\<close>

fun compareUnits :: "'c::linorder list \<Rightarrow> 'c list \<Rightarrow> int" where
  "compareUnits [] [] = 0"
| "compareUnits [] (y # ys) = - 1"
| "compareUnits (x # xs) [] = 1"
| "compareUnits (x # xs) (y # ys) =
     (if x < y then - 1 else if y < x then 1 else compareUnits xs ys)"

definition scriptedPage ::
  "(nat \<Rightarrow> nat \<Rightarrow> 'c acc_item list) \<Rightarrow> bool \<Rightarrow> (nat \<times> nat, 'c::linorder) playwright" where
  "scriptedPage script expandable =
     \<lparr>launch = (\<lambda>w. (None, (Suc (fst w), 0))),
      newContext = (\<lambda>w. (None, w)),
      newPage = (\<lambda>w. (None, w)),
      now = (\<lambda>w. 0),
      goto = (\<lambda>w. (None, w)),
      waitForLoadState = (\<lambda>w. w),
      queryConsent = (\<lambda>selector w. (Inr False, w)),
      clickConsent = (\<lambda>w. w),
      waitForTimeout = (\<lambda>w. (None, w)),
      hashSERP = (\<lambda>w. ([], w)),
      findPAAContainer = (\<lambda>w. (Inr True, w)),
      pageScreenshot = (\<lambda>w. (Inr [], w)),
      paaOuterHTML = (\<lambda>w. (Inr [], w)),
      paaScreenshot = (\<lambda>w. (Inr [], w)),
      getAccordionItems = (\<lambda>w. (Inr (script (fst w) (snd w)), w)),
      findButton = (\<lambda>raw w. (expandable, w)),
      clickButton = (\<lambda>w. (fst w, Suc (snd w))),
      waitForChildrenInjected = (\<lambda>w. (None, w)),
      close = (\<lambda>w. (None, w)),
      trim = (\<lambda>s. s),
      normalize = (\<lambda>s. s),
      localeCompare = compareUnits\<rparr>"

definition twoQuestions :: "char acc_item list" where
  "twoQuestions =
     [\<lparr>question = ''what is x'', a_orderIdx = 0, path = ''p0''\<rparr>,
      \<lparr>question = ''why is x'', a_orderIdx = 1, path = ''p1''\<rparr>]"

definition demoParams :: "int \<Rightarrow> int \<Rightarrow> bool \<Rightarrow> char PAAParams" where
  "demoParams d k s =
     \<lparr>keyword = ''x'', gl = ''US'', hl = ''en'', device = mobile, p_depth = d, p_k = k,
      uule = None, strict = s\<rparr>"

definition closeFails :: "('w, 'c) playwright \<Rightarrow> ('w, 'c) playwright" where
  "closeFails api = api\<lparr>close := (\<lambda>w. (Some (Error ''close failed''), w))\<rparr>"

definition gotoFails :: "('w, 'c) playwright \<Rightarrow> ('w, 'c) playwright" where
  "gotoFails api = api\<lparr>goto := (\<lambda>w. (Some (Error ''navigation failed''), w))\<rparr>"

lemmas run_defs = runSingle_def tryBody_def walkContainer_def bfs.simps recordItem_def
  scriptedPage_def closeBrowser_def catchBlock_def consentSelectors_def twoQuestions_def
  demoParams_def closeFails_def gotoFails_def Let_def

section \<open>Claims about runSingle\<close>

text \<open>
  C1, as stated, fails.  Claim: the number of items of the result of \<open>runSingle\<close> is at most
  \<open>maxNodes\<close>.  On a page whose first snapshot shows two different questions, with
  \<open>maxNodes = 1\<close> and depth 0, both questions are recorded: the budget is compared only
  before an expansion and after the whole snapshot has been walked.
\<close>

theorem runSingle_items_exceed_maxNodes:
  "outcome (runSingle (scriptedPage (\<lambda>_ _. twoQuestions) False) (demoParams 0 1 False) 1 45000 (0, 0)) =
     Inr \<lparr>items =
            [\<lparr>raw = ''what is x'', norm = ''what is x'', depth = 0, parent = None,
              domPath = ''p0'', orderIdx = 0\<rparr>,
             \<lparr>raw = ''why is x'', norm = ''why is x'', depth = 0, parent = None,
              domPath = ''p1'', orderIdx = 1\<rparr>],
          evidence = \<lparr>fullScreenshotB64 = Some [], paaHtml = Some [],
                       paaCropsB64 = Some [[]]\<rparr>,
          serpHash = []\<rparr>"
  by (simp add: run_defs)

text \<open>
  C1, amended.  When every snapshot that \<open>getAccordionItems\<close> returns has at most \<open>m\<close>
  entries, the result of \<open>runSingle\<close> has at most \<open>max (maxNodes - 1) 0 + m\<close> items: a
  snapshot is only read while fewer than \<open>maxNodes\<close> items are recorded (or none), and it
  is then recorded whole.
\<close>

theorem runSingle_items_bound:
  assumes "outcome (runSingle api params maxNodes maxMs w) = Inr res"
    and "\<forall>w acc w'. getAccordionItems api w = (Inr acc, w') \<longrightarrow> length acc \<le> m"
  shows "int (length (items res)) \<le> max 0 (maxNodes - 1) + int m"
  using assms by (intro runSingle_items_le) blast+

text \<open>C1, witness: the page with two questions, depth 1 and budget 1; its snapshots have 2 entries.\<close>

theorem runSingle_items_bound_witness:
  "outcome (runSingle (scriptedPage (\<lambda>_ _. twoQuestions) True) (demoParams 1 1 False) 1 45000 (0, 0)) =
     Inr \<lparr>items =
            [\<lparr>raw = ''what is x'', norm = ''what is x'', depth = 0, parent = None,
              domPath = ''p0'', orderIdx = 0\<rparr>,
             \<lparr>raw = ''why is x'', norm = ''why is x'', depth = 0, parent = None,
              domPath = ''p1'', orderIdx = 1\<rparr>],
          evidence = \<lparr>fullScreenshotB64 = Some [], paaHtml = Some [],
                       paaCropsB64 = Some [[]]\<rparr>,
          serpHash = []\<rparr> \<and>
   int (length (items
        \<lparr>items =
            [\<lparr>raw = ''what is x'', norm = ''what is x'', depth = 0, parent = None,
              domPath = ''p0'', orderIdx = 0\<rparr>,
             \<lparr>raw = ''why is x'', norm = ''why is x'', depth = 0, parent = None,
              domPath = ''p1'', orderIdx = 1\<rparr>],
          evidence = \<lparr>fullScreenshotB64 = Some [], paaHtml = Some [],
                       paaCropsB64 = Some [[]]\<rparr>,
          serpHash = []\<rparr>)) \<le> max 0 (1 - 1) + int 2"
proof -
  let ?api = "scriptedPage (\<lambda>_ _. twoQuestions) True :: (nat \<times> nat, char) playwright"
  let ?res = "\<lparr>items =
            [\<lparr>raw = ''what is x'', norm = ''what is x'', depth = 0, parent = None,
              domPath = ''p0'', orderIdx = 0\<rparr>,
             \<lparr>raw = ''why is x'', norm = ''why is x'', depth = 0, parent = None,
              domPath = ''p1'', orderIdx = 1\<rparr>],
          evidence = \<lparr>fullScreenshotB64 = Some [], paaHtml = Some [],
                       paaCropsB64 = Some [[]]\<rparr>,
          serpHash = []\<rparr>"
  have h1: "outcome (runSingle ?api (demoParams 1 1 False) 1 45000 (0, 0)) = Inr ?res"
    by (simp add: run_defs)
  have h2: "\<forall>w acc w'. getAccordionItems ?api w = (Inr acc, w') \<longrightarrow> length acc \<le> 2"
    by (simp add: scriptedPage_def twoQuestions_def)
  from runSingle_items_bound[OF h1 h2] h1 show ?thesis by blast
qed

text \<open>
  C9, as stated, fails.  Claim: a failure of the close operation is never propagated to
  the caller.  On a page where every call succeeds except \<open>browser.close()\<close>, the
  traversal completes, the \<open>browser.close()\<close> before the \<open>return\<close> throws inside the
  \<open>try\<close>, and \<open>runSingle\<close> throws that error instead of returning the result.
\<close>

theorem runSingle_close_failure_propagates:
  "outcome (runSingle (closeFails (scriptedPage (\<lambda>_ _. twoQuestions) False))
      (demoParams 0 1 False) 220 45000 (0, 0)) = Inl (Error ''close failed'')"
  by (simp add: run_defs)

text \<open>
  C9, amended.  Once the browser has been launched, \<open>runSingle\<close> calls \<open>browser.close()\<close>
  at least once on every exit path (normal return, container not found, exception); and
  when an operation of the \<open>try\<close> block other than that close throws, \<open>runSingle\<close>
  throws the same exception after exactly one call of close, whatever that call does: the
  failure of the close in the handler is swallowed.
\<close>

theorem runSingle_closes_browser:
  assumes "launch api w = (None, w1)"
  shows "1 \<le> close_calls (runSingle api params maxNodes maxMs w) \<and>
         (\<forall>e w2. tryBody api params maxNodes maxMs w1 = (Inl e, w2) \<longrightarrow>
            outcome (runSingle api params maxNodes maxMs w) = Inl e \<and>
            close_calls (runSingle api params maxNodes maxMs w) = 1)"
  using assms unfolding runSingle_def catchBlock_def closeBrowser_def
  by (auto split: prod.splits sum.splits option.splits)

text \<open>
  C9, witness: the navigation fails and so does every close; the navigation error is
  what \<open>runSingle\<close> throws, after one call of close.
\<close>

theorem runSingle_closes_browser_witness:
  "launch (closeFails (gotoFails (scriptedPage (\<lambda>_ _. twoQuestions) False))) (0, 0) =
     (None, (1, 0)) \<and>
   tryBody (closeFails (gotoFails (scriptedPage (\<lambda>_ _. twoQuestions) False)))
     (demoParams 0 1 False) 220 45000 (1, 0) = (Inl (Error ''navigation failed''), (1, 0)) \<and>
   outcome (runSingle (closeFails (gotoFails (scriptedPage (\<lambda>_ _. twoQuestions) False)))
     (demoParams 0 1 False) 220 45000 (0, 0)) = Inl (Error ''navigation failed'') \<and>
   close_calls (runSingle (closeFails (gotoFails (scriptedPage (\<lambda>_ _. twoQuestions) False)))
     (demoParams 0 1 False) 220 45000 (0, 0)) = 1"
proof -
  let ?api = "closeFails (gotoFails (scriptedPage (\<lambda>_ _. twoQuestions) False)) :: (nat \<times> nat, char) playwright"
  have h1: "launch ?api (0, 0) = (None, (1, 0))"
    by (simp add: run_defs)
  have h2: "tryBody ?api (demoParams 0 1 False) 220 45000 (1, 0) =
    (Inl (Error ''navigation failed''), (1, 0))"
    by (simp add: run_defs)
  from runSingle_closes_browser[OF h1, of "demoParams 0 1 False" 220 45000] h1 h2
  show ?thesis by blast
qed

section \<open>runConsensus\<close>

subsection \<open>JavaScript numbers in the confidence score\<close>

text \<open>
  A finite double is the rational number it denotes.  \<open>binary64\<close> rounds a rational to
  the nearest double, ties to the even significand, as every arithmetic operation and
  every decimal literal of the source does; the exponent range is not limited, which
  agrees with IEEE 754 on magnitudes from \<open>2\<^sup>-\<^sup>1\<^sup>0\<^sup>2\<^sup>2\<close> up to
  \<open>2\<^sup>1\<^sup>0\<^sup>2\<^sup>4\<close>, and negative arguments, which the score never meets, are not
  modelled (they yield 0).  \<open>ilog2 x\<close> is the exponent \<open>e\<close> with
  \<open>2\<^sup>e \<le> x < 2\<^sup>e\<^sup>+\<^sup>1\<close>.
\<close>

definition roundHalfEven :: "rat \<Rightarrow> int" where
  "roundHalfEven q =
     (let f = \<lfloor>q\<rfloor>; r = q - of_int f
      in if r < 1 / 2 then f else if 1 / 2 < r then f + 1 else if even f then f else f + 1)"

definition ilog2 :: "rat \<Rightarrow> int" where
  "ilog2 x = (if 1 \<le> x then bitlen \<lfloor>x\<rfloor> - 1 else - bitlen (\<lceil>1 / x\<rceil> - 1))"

definition binary64 :: "rat \<Rightarrow> rat" where
  "binary64 x =
     (if x \<le> 0 then 0
      else let u = 2 powi (ilog2 x - 52) in of_int (roundHalfEven (x / u)) * u)"

text \<open>
  \<open>Number(x.toFixed(3))\<close> for \<open>0 \<le> x < 10\<^sup>2\<^sup>1\<close>: \<open>toFixed\<close> takes the integer \<open>n\<close>
  for which \<open>n / 1000\<close> is closest to \<open>x\<close>, the larger one of two, and \<open>Number\<close> reads
  the decimal string back as the nearest double.
\<close>

definition toFixed3 :: "rat \<Rightarrow> rat" where
  "toFixed3 x = binary64 (of_int \<lfloor>x * 1000 + 1 / 2\<rfloor> / 1000)"

text \<open>
  \<open>0.6 * (x.appearances / k) + 0.4 * (1 / (1 + x.depth))\<close>, then \<open>toFixed(3)\<close>.  The
  counts are small integers, which are doubles.  \<open>x.depth\<close> is the value of
  \<open>Math.min(...v.depths)\<close>, which is \<open>Infinity\<close> for no arguments; then
  \<open>1 / (1 + Infinity)\<close> is 0.
\<close>

definition confidenceOf :: "nat \<Rightarrow> nat \<Rightarrow> enat \<Rightarrow> rat" where
  "confidenceOf a k d =
     toFixed3 (binary64
       (binary64 (binary64 (6 / 10) * binary64 (of_nat a / of_nat k)) +
        binary64 (binary64 (4 / 10) *
          (case d of enat n \<Rightarrow> binary64 (1 / binary64 (1 + of_nat n)) | \<infinity> \<Rightarrow> 0))))"

text \<open>The score as the specification writes it, in exact arithmetic, rounded half up.\<close>

definition exactScore :: "nat \<Rightarrow> nat \<Rightarrow> nat \<Rightarrow> rat" where
  "exactScore a k d =
     of_int \<lfloor>((6 / 10 :: rat) * (of_nat a / of_nat k) + 4 / 10 * (1 / (1 + of_nat d))) * 1000
               + 1 / 2\<rfloor> / 1000"

subsection \<open>Arrays and maps\<close>

text \<open>
  \<open>Array.prototype.sort(compareFn)\<close> is stable and, for a consistent comparator, yields
  the elements in an order in which no element compares greater than a later one; it is
  modelled by the stable insertion sort.  A negative or zero value of \<open>cmp a b\<close> keeps
  \<open>a\<close> before \<open>b\<close>.
\<close>

fun insortBy :: "('a \<Rightarrow> 'a \<Rightarrow> int) \<Rightarrow> 'a \<Rightarrow> 'a list \<Rightarrow> 'a list" where
  "insortBy cmp x [] = [x]"
| "insortBy cmp x (y # ys) = (if cmp x y \<le> 0 then x # y # ys else y # insortBy cmp x ys)"

definition jsSort :: "('a \<Rightarrow> 'a \<Rightarrow> int) \<Rightarrow> 'a list \<Rightarrow> 'a list" where
  "jsSort cmp xs = foldr (insortBy cmp) xs []"

text \<open>
  A \<open>Map\<close> is the list of its entries in insertion order: \<open>get\<close> is \<open>map_of\<close>, \<open>set\<close>
  replaces the value of a present key in place and appends an absent key
  (\<open>AList.update\<close>).  \<open>Math.min\<close> of no arguments is \<open>Infinity\<close>.
\<close>

definition mathMin :: "nat list \<Rightarrow> enat" where
  "mathMin xs = fold (\<lambda>x m. min (enat x) m) xs \<infinity>"

text \<open>\<open>topString\<close>: the most frequent string, the first inserted among equally frequent ones.\<close>

definition countStrings :: "'c list list \<Rightarrow> ('c list \<times> nat) list" where
  "countStrings arr =
     fold (\<lambda>s counts.
             AList.update s ((case map_of counts s of Some n \<Rightarrow> n | None \<Rightarrow> 0) + 1) counts)
       arr []"

definition topString :: "'c list list \<Rightarrow> 'c list" where
  "topString arr =
     (if arr = [] then []
      else case jsSort (\<lambda>a b. int (snd b) - int (snd a)) (countStrings arr) of
             [] \<Rightarrow> []
           | first # _ \<Rightarrow> fst first)"

subsection \<open>The aggregation\<close>

record 'c samples =
  rawSamples :: "'c list list"
  depths :: "nat list"
  parents :: "'c list option list"
  orderIdxs :: "nat list"

record 'c consensus_entry =
  e_norm :: "'c list"
  e_raw :: "'c list"
  e_depth :: enat
  e_orderIdx :: enat
  e_parent :: "'c list option"
  e_appearances :: nat

record 'c ConsensusPAAResult =
  c_question :: "'c list"
  c_norm :: "'c list"
  c_depth :: enat
  c_parent :: "'c list option"
  appearances :: nat
  confidence :: rat

text \<open>\<open>Math.min(Math.max(params.k || 1, 1), 3)\<close>.\<close>

definition clampK :: "int \<Rightarrow> nat" where
  "clampK k = nat (min (max (if k = 0 then 1 else k) 1) 3)"

text \<open>The loop \<open>for (let i = 0; i < k; i++) runs.push(await runSingle(params))\<close>.\<close>

fun runK ::
  "('w, 'c) playwright \<Rightarrow> 'c PAAParams \<Rightarrow> int \<Rightarrow> int \<Rightarrow> nat \<Rightarrow> 'w \<Rightarrow>
   (error + 'c PAARunResult list) \<times> 'w" where
  "runK api params maxNodes maxMs 0 w = (Inr [], w)"
| "runK api params maxNodes maxMs (Suc n) w =
     (let r = runSingle api params maxNodes maxMs w
      in case outcome r of
           Inl e \<Rightarrow> (Inl e, world r)
         | Inr res \<Rightarrow>
             (case runK api params maxNodes maxMs n (world r) of
                (Inl e, w') \<Rightarrow> (Inl e, w')
              | (Inr rest, w') \<Rightarrow> (Inr (res # rest), w')))"

text \<open>The body of \<open>for (const it of r.items)\<close>: the samples under the key \<open>it.norm\<close>.\<close>

definition addItem ::
  "('c list \<times> 'c samples) list \<Rightarrow> 'c PAAItem \<Rightarrow> ('c list \<times> 'c samples) list" where
  "addItem m it =
     (let v = (case map_of m (norm it) of
                 Some v \<Rightarrow> v
               | None \<Rightarrow> \<lparr>rawSamples = [], depths = [], parents = [], orderIdxs = []\<rparr>)
      in AList.update (norm it)
           (v\<lparr>rawSamples := rawSamples v @ [raw it], depths := depths v @ [depth it],
              parents := parents v @ [parent it], orderIdxs := orderIdxs v @ [orderIdx it]\<rparr>) m)"

definition buildMap :: "'c PAARunResult list \<Rightarrow> ('c list \<times> 'c samples) list" where
  "buildMap runs = fold (\<lambda>r m. fold (\<lambda>it m. addItem m it) (items r) m) runs []"

text \<open>
  \<open>v.parents.filter(Boolean)\<close> drops \<open>undefined\<close> and the empty string; so does
  \<open>|| undefined\<close> with the empty result of \<open>topString\<close>.
\<close>

definition aggregate :: "'c list \<times> 'c samples \<Rightarrow> 'c consensus_entry" where
  "aggregate kv =
     (case kv of (n, v) \<Rightarrow>
        let tp = topString [p. Some p \<leftarrow> parents v, p \<noteq> []]
        in \<lparr>e_norm = n, e_raw = topString (rawSamples v), e_depth = mathMin (depths v),
            e_orderIdx = mathMin (orderIdxs v),
            e_parent = (if tp = [] then None else Some tp),
            e_appearances = length (rawSamples v)\<rparr>)"

definition threshold :: "bool \<Rightarrow> nat \<Rightarrow> nat" where
  "threshold strict' k = (if strict' then min k 2 else 1)"

definition withConfidence :: "nat \<Rightarrow> 'c consensus_entry \<Rightarrow> 'c ConsensusPAAResult" where
  "withConfidence k x =
     \<lparr>c_question = e_raw x, c_norm = e_norm x, c_depth = e_depth x, c_parent = e_parent x,
      appearances = e_appearances x,
      confidence = confidenceOf (e_appearances x) k (e_depth x)\<rparr>"

text \<open>The comparator of the final sort.\<close>

definition compareResults ::
  "('c list \<Rightarrow> 'c list \<Rightarrow> int) \<Rightarrow> 'c ConsensusPAAResult \<Rightarrow> 'c ConsensusPAAResult \<Rightarrow> int" where
  "compareResults lc a b =
     (if appearances b \<noteq> appearances a then int (appearances b) - int (appearances a)
      else if c_depth a \<noteq> c_depth b then (if c_depth a < c_depth b then - 1 else 1)
      else lc (c_norm a) (c_norm b))"

text \<open>Everything \<open>runConsensus\<close> does with the \<open>k\<close> runs once they have returned.\<close>

definition consensusOf ::
  "('c list \<Rightarrow> 'c list \<Rightarrow> int) \<Rightarrow> nat \<Rightarrow> bool \<Rightarrow> 'c PAARunResult list \<Rightarrow>
   'c ConsensusPAAResult list" where
  "consensusOf lc k strict' runs =
     jsSort (compareResults lc)
       (map (withConfidence k)
          (filter (\<lambda>x. threshold strict' k \<le> e_appearances x)
             (map aggregate (buildMap runs))))"

definition runConsensus ::
  "('w, 'c) playwright \<Rightarrow> 'c PAAParams \<Rightarrow> int \<Rightarrow> int \<Rightarrow> 'w \<Rightarrow>
   (error + 'c ConsensusPAAResult list \<times> ('c list \<times> 'c Evidence) list) \<times> 'w" where
  "runConsensus api params maxNodes maxMs w =
     (let k = clampK (p_k params)
      in case runK api params maxNodes maxMs k w of
           (Inl e, w') \<Rightarrow> (Inl e, w')
         | (Inr runs, w') \<Rightarrow>
             (Inr (consensusOf (localeCompare api) k (strict params) runs,
                   map (\<lambda>r. (serpHash r, evidence r)) runs), w'))"

subsection \<open>Facts about the sort\<close>

lemma set_insortBy [simp]: "set (insortBy cmp x ys) = insert x (set ys)"
  by (induction ys) auto

lemma set_jsSort [simp]: "set (jsSort cmp xs) = set xs"
  by (induction xs) (simp_all add: jsSort_def)

lemma length_insortBy [simp]: "length (insortBy cmp x ys) = Suc (length ys)"
  by (induction ys) auto

lemma length_jsSort [simp]: "length (jsSort cmp xs) = length xs"
  by (induction xs) (simp_all add: jsSort_def)

text \<open>
  A consistent comparator: of two elements one does not compare greater than the other,
  and not comparing greater is transitive.
\<close>

definition consistent :: "('a \<Rightarrow> 'a \<Rightarrow> int) \<Rightarrow> bool" where
  "consistent cmp \<longleftrightarrow>
     (\<forall>a b. 0 < cmp a b \<longrightarrow> cmp b a \<le> 0) \<and>
     (\<forall>a b c. cmp a b \<le> 0 \<longrightarrow> cmp b c \<le> 0 \<longrightarrow> cmp a c \<le> 0)"

lemma sorted_insortBy:
  assumes "consistent cmp" "sorted_wrt (\<lambda>a b. cmp a b \<le> 0) ys"
  shows "sorted_wrt (\<lambda>a b. cmp a b \<le> 0) (insortBy cmp x ys)"
  using assms(2)
proof (induction ys)
  case Nil
  then show ?case by simp
next
  case (Cons y ys)
  show ?case
  proof (cases "cmp x y \<le> 0")
    case True
    with Cons.prems assms(1) show ?thesis
      unfolding consistent_def by (auto dest: spec)
  next
    case False
    with assms(1) have "cmp y x \<le> 0" unfolding consistent_def by force
    with False Cons show ?thesis by auto
  qed
qed

lemma sorted_jsSort:
  "consistent cmp \<Longrightarrow> sorted_wrt (\<lambda>a b. cmp a b \<le> 0) (jsSort cmp xs)"
  by (induction xs) (simp_all add: jsSort_def sorted_insortBy)

subsection \<open>Facts about the map of samples\<close>

text \<open>
  After all items \<open>its\<close> of all runs have been added, the map has one entry for each
  normalized text among them, and the entry of \<open>n\<close> holds the samples of the items with
  that normalized text, in order.
\<close>

definition samplesOf :: "'c PAAItem list \<Rightarrow> 'c list \<Rightarrow> 'c samples" where
  "samplesOf its n =
     (let hits = filter (\<lambda>it. norm it = n) its
      in \<lparr>rawSamples = map raw hits, depths = map depth hits, parents = map parent hits,
          orderIdxs = map orderIdx hits\<rparr>)"

definition holds :: "('c list \<times> 'c samples) list \<Rightarrow> 'c PAAItem list \<Rightarrow> bool" where
  "holds m its \<longleftrightarrow>
     distinct (map fst m) \<and>
     (\<forall>n. map_of m n = (if n \<in> norm ` set its then Some (samplesOf its n) else None))"

lemma holds_addItem: "holds m its \<Longrightarrow> holds (addItem m it) (its @ [it])"
  by (auto simp: holds_def addItem_def Let_def distinct_update update_conv' samplesOf_def
      image_iff filter_empty_conv split: option.splits)

lemma holds_fold: "holds m its \<Longrightarrow> holds (fold (\<lambda>it m. addItem m it) xs m) (its @ xs)"
proof (induction xs arbitrary: m its)
  case Nil
  then show ?case by simp
next
  case (Cons x xs)
  from Cons.IH[OF holds_addItem[OF Cons.prems, of x]] show ?case by simp
qed

lemma fold_runs:
  "fold (\<lambda>r m. fold f (items r) m) runs m = fold f (concat (map items runs)) m"
  by (induction runs arbitrary: m) simp_all

lemma buildMap_concat:
  "buildMap runs = fold (\<lambda>it m. addItem m it) (concat (map items runs)) []"
  by (simp add: buildMap_def fold_runs)

lemma holds_buildMap: "holds (buildMap runs) (concat (map items runs))"
proof -
  have "holds [] ([] :: 'a PAAItem list)" by (simp add: holds_def)
  from holds_fold[OF this, of "concat (map items runs)"] show ?thesis
    by (simp add: buildMap_concat)
qed

lemma buildMap_entry:
  assumes "(n, v) \<in> set (buildMap runs)"
  shows "n \<in> norm ` set (concat (map items runs))" "v = samplesOf (concat (map items runs)) n"
proof -
  from holds_buildMap[of runs] have d: "distinct (map fst (buildMap runs))"
    and m: "\<And>n. map_of (buildMap runs) n =
      (if n \<in> norm ` set (concat (map items runs)) then Some (samplesOf (concat (map items runs)) n) else None)"
    by (auto simp: holds_def)
  from assms d have "map_of (buildMap runs) n = Some v" by simp
  with m[of n] show "n \<in> norm ` set (concat (map items runs))" "v = samplesOf (concat (map items runs)) n"
    by (auto split: if_splits)
qed

lemma buildMap_keys: "fst ` set (buildMap runs) = norm ` set (concat (map items runs))"
proof -
  from holds_buildMap[of runs] have
    m: "\<And>n. map_of (buildMap runs) n =
      (if n \<in> norm ` set (concat (map items runs)) then Some (samplesOf (concat (map items runs)) n) else None)"
    by (auto simp: holds_def)
  have "fst ` set (buildMap runs) = dom (map_of (buildMap runs))" by (simp add: dom_map_of_conv_image_fst)
  also have "\<dots> = norm ` set (concat (map items runs))" using m by (auto simp: dom_def split: if_splits)
  finally show ?thesis .
qed

text \<open>The number of items with normalized text \<open>n\<close> in all runs together.\<close>

definition occurrences :: "'c PAARunResult list \<Rightarrow> 'c list \<Rightarrow> nat" where
  "occurrences runs n = length (filter (\<lambda>it. norm it = n) (concat (map items runs)))"

lemma occurrences_Cons:
  "occurrences (r # runs) n = length (filter (\<lambda>it. norm it = n) (items r)) + occurrences runs n"
  by (simp add: occurrences_def)

lemma distinct_filter_le_1:
  "distinct (map f xs) \<Longrightarrow> length (filter (\<lambda>x. f x = a) xs) \<le> 1"
proof (induction xs)
  case Nil
  then show ?case by simp
next
  case (Cons x xs)
  then show ?case by (auto simp: filter_empty_conv image_iff)
qed

lemma occurrences_le_runs:
  "\<forall>r \<in> set runs. distinct (map norm (items r)) \<Longrightarrow> occurrences runs n \<le> length runs"
proof (induction runs)
  case Nil
  then show ?case by (simp add: occurrences_def)
next
  case (Cons r runs)
  from Cons.prems have "length (filter (\<lambda>it. norm it = n) (items r)) \<le> 1"
    by (intro distinct_filter_le_1) simp
  with Cons show ?case by (simp add: occurrences_Cons)
qed

lemma occurrences_pos:
  assumes "n \<in> norm ` set (concat (map items runs))"
  shows "0 < occurrences runs n"
proof -
  from assms obtain it where "it \<in> set (concat (map items runs))" "norm it = n" by auto
  then have "filter (\<lambda>it. norm it = n) (concat (map items runs)) \<noteq> []"
    by (simp only: filter_empty_conv) blast
  then show ?thesis by (simp add: occurrences_def)
qed

lemma runK_runs:
  "runK api params maxNodes maxMs k w = (Inr runs, w') \<Longrightarrow>
   length runs = k \<and> (\<forall>r \<in> set runs. distinct (map norm (items r)))"
proof (induction k arbitrary: w runs)
  case 0
  then show ?case by simp
next
  case (Suc k)
  then show ?case
    by (auto simp: Let_def runSingle_norms_distinct split: sum.splits prod.splits)
qed

lemma consensusOf_results:
  "r \<in> set (consensusOf lc k s runs) \<longleftrightarrow>
   (\<exists>n \<in> norm ` set (concat (map items runs)).
      threshold s k \<le> occurrences runs n \<and>
      r = withConfidence k (aggregate (n, samplesOf (concat (map items runs)) n)))"
  (is "?l \<longleftrightarrow> ?r")
proof
  assume ?l
  then obtain n v where nv: "(n, v) \<in> set (buildMap runs)"
    and th: "threshold s k \<le> e_appearances (aggregate (n, v))"
    and r: "r = withConfidence k (aggregate (n, v))"
    by (auto simp: consensusOf_def)
  from buildMap_entry[OF nv] th r show ?r
    by (auto simp: aggregate_def Let_def samplesOf_def occurrences_def)
next
  assume ?r
  then obtain n where n: "n \<in> norm ` set (concat (map items runs))"
    and th: "threshold s k \<le> occurrences runs n"
    and r: "r = withConfidence k (aggregate (n, samplesOf (concat (map items runs)) n))" by auto
  from n have "n \<in> fst ` set (buildMap runs)" by (simp add: buildMap_keys)
  then obtain v where nv: "(n, v) \<in> set (buildMap runs)" by auto
  from buildMap_entry(2)[OF nv] have v: "v = samplesOf (concat (map items runs)) n" .
  from th have "threshold s k \<le> e_appearances (aggregate (n, v))"
    by (simp add: v aggregate_def Let_def samplesOf_def occurrences_def)
  with nv r v show ?l by (force simp: consensusOf_def)
qed


subsection \<open>Facts about the results\<close>

lemma clampK_range: "1 \<le> clampK k" "clampK k \<le> 3"
  by (simp_all add: clampK_def)

text \<open>
  The order of the results: more appearances first, then the smaller depth, then the
  normalized text that \<open>localeCompare\<close> does not put after the other.
\<close>

definition ranked ::
  "('c list \<Rightarrow> 'c list \<Rightarrow> int) \<Rightarrow> 'c ConsensusPAAResult \<Rightarrow> 'c ConsensusPAAResult \<Rightarrow> bool" where
  "ranked lc a b \<longleftrightarrow>
     appearances b < appearances a \<or>
     appearances a = appearances b \<and>
       (c_depth a < c_depth b \<or> c_depth a = c_depth b \<and> lc (c_norm a) (c_norm b) \<le> 0)"

lemma compareResults_le: "compareResults lc a b \<le> 0 \<longleftrightarrow> ranked lc a b"
  by (auto simp: compareResults_def ranked_def)

lemma consistent_compareResults:
  assumes "consistent lc"
  shows "consistent (compareResults lc)"
proof -
  from assms have tot: "\<And>x y. \<not> lc x y \<le> 0 \<Longrightarrow> lc y x \<le> 0"
    and tr: "\<And>x y z. lc x y \<le> 0 \<Longrightarrow> lc y z \<le> 0 \<Longrightarrow> lc x z \<le> 0"
    unfolding consistent_def by (force, blast)
  have total: "ranked lc b a" if "\<not> ranked lc a b" for a b
    using that tot[of "c_norm a" "c_norm b"] unfolding ranked_def
    by (cases "appearances a" "appearances b" rule: linorder_cases;
        cases "c_depth a" "c_depth b" rule: linorder_cases; simp)
  have trans: "ranked lc a c" if ab: "ranked lc a b" and bc: "ranked lc b c" for a b c
  proof -
    consider (gt) "appearances b < appearances a \<or> appearances c < appearances b"
      | (eq) "appearances a = appearances b" "appearances b = appearances c"
      using ab bc by (auto simp: ranked_def)
    then show ?thesis
    proof cases
      case gt
      with ab bc show ?thesis unfolding ranked_def by auto
    next
      case eq
      consider (lt) "c_depth a < c_depth b \<or> c_depth b < c_depth c"
        | (deq) "c_depth a = c_depth b" "c_depth b = c_depth c"
        using ab bc eq by (auto simp: ranked_def)
      then show ?thesis
      proof cases
        case lt
        with ab bc eq show ?thesis unfolding ranked_def by auto
      next
        case deq
        with ab bc eq tr[of "c_norm a" "c_norm b" "c_norm c"] show ?thesis
          unfolding ranked_def by simp
      qed
    qed
  qed
  show ?thesis
    unfolding consistent_def compareResults_le
    using total trans by (meson compareResults_le not_le)
qed


lemma mset_insortBy [simp]: "mset (insortBy cmp x ys) = add_mset x (mset ys)"
  by (induction ys) auto

lemma mset_jsSort [simp]: "mset (jsSort cmp xs) = mset xs"
  by (induction xs) (simp_all add: jsSort_def)

lemma distinct_map_jsSort: "distinct (map f (jsSort cmp xs)) \<longleftrightarrow> distinct (map f xs)"
proof -
  have "mset (map f (jsSort cmp xs)) = mset (map f xs)" by simp
  then show ?thesis by (rule mset_eq_imp_distinct_iff)
qed

lemma occurrences_pos_iff:
  "0 < occurrences runs n \<longleftrightarrow> n \<in> norm ` set (concat (map items runs))"
proof
  assume "0 < occurrences runs n"
  then have "filter (\<lambda>it. norm it = n) (concat (map items runs)) \<noteq> []"
    by (simp add: occurrences_def)
  then obtain it where "it \<in> set (filter (\<lambda>it. norm it = n) (concat (map items runs)))"
    by (meson last_in_set)
  then show "n \<in> norm ` set (concat (map items runs))" by auto
qed (rule occurrences_pos)

lemma consensusOf_result:
  assumes "r \<in> set (consensusOf lc k s runs)"
  shows "appearances r = occurrences runs (c_norm r)"
    and "threshold s k \<le> appearances r"
    and "0 < appearances r"
    and "confidence r = confidenceOf (appearances r) k (c_depth r)"
proof -
  from assms obtain n where n: "n \<in> norm ` set (concat (map items runs))"
    and th: "threshold s k \<le> occurrences runs n"
    and r: "r = withConfidence k (aggregate (n, samplesOf (concat (map items runs)) n))"
    unfolding consensusOf_results by blast
  have a: "appearances r = occurrences runs n" and c: "c_norm r = n"
    by (simp_all add: r withConfidence_def aggregate_def Let_def samplesOf_def occurrences_def)
  show "appearances r = occurrences runs (c_norm r)" by (simp add: a c)
  show "threshold s k \<le> appearances r" using th by (simp add: a)
  show "0 < appearances r" using occurrences_pos[OF n] by (simp add: a)
  show "confidence r = confidenceOf (appearances r) k (c_depth r)"
    by (simp add: r withConfidence_def)
qed

lemma consensusOf_norms:
  assumes "1 \<le> k"
  shows "c_norm ` set (consensusOf lc k s runs) = {n. threshold s k \<le> occurrences runs n}"
proof (intro set_eqI iffI)
  fix n assume "n \<in> c_norm ` set (consensusOf lc k s runs)"
  then obtain r where r: "r \<in> set (consensusOf lc k s runs)" and n: "n = c_norm r" by auto
  from consensusOf_result(1,2)[OF r] n show "n \<in> {n. threshold s k \<le> occurrences runs n}"
    by simp
next
  fix n assume "n \<in> {n. threshold s k \<le> occurrences runs n}"
  then have th: "threshold s k \<le> occurrences runs n" by simp
  from assms have "1 \<le> threshold s k" by (simp add: threshold_def)
  with th have "0 < occurrences runs n" by simp
  then have n: "n \<in> norm ` set (concat (map items runs))" by (simp only: occurrences_pos_iff)
  let ?r = "withConfidence k (aggregate (n, samplesOf (concat (map items runs)) n))"
  from n th have "?r \<in> set (consensusOf lc k s runs)" unfolding consensusOf_results by blast
  moreover have "c_norm ?r = n" by (simp add: withConfidence_def aggregate_def Let_def)
  ultimately show "n \<in> c_norm ` set (consensusOf lc k s runs)" by force
qed

lemma consensusOf_distinct: "distinct (map c_norm (consensusOf lc k s runs))"
proof -
  have d: "distinct (map fst (buildMap runs))" using holds_buildMap[of runs] by (simp add: holds_def)
  have e: "map (c_norm \<circ> withConfidence k \<circ> aggregate) xs = map fst xs" for xs :: "('a list \<times> 'a samples) list"
    by (induction xs) (auto simp: withConfidence_def aggregate_def Let_def)
  have "map c_norm (map (withConfidence k)
          (filter (\<lambda>x. threshold s k \<le> e_appearances x) (map aggregate (buildMap runs)))) =
        map fst (filter (\<lambda>kv. threshold s k \<le> e_appearances (aggregate kv)) (buildMap runs))"
    by (simp add: filter_map comp_def e[unfolded comp_def])
  moreover have "distinct (map fst (filter (\<lambda>kv. threshold s k \<le> e_appearances (aggregate kv)) (buildMap runs)))"
    using d by (rule distinct_map_filter)
  ultimately show ?thesis by (simp add: consensusOf_def distinct_map_jsSort)
qed

lemma consensusOf_sorted:
  assumes "consistent lc"
  shows "sorted_wrt (ranked lc) (consensusOf lc k s runs)"
proof -
  have "sorted_wrt (\<lambda>a b. compareResults lc a b \<le> 0) (consensusOf lc k s runs)"
    unfolding consensusOf_def by (rule sorted_jsSort[OF consistent_compareResults[OF assms]])
  then show ?thesis by (simp only: compareResults_le)
qed

lemma runConsensus_Inr:
  assumes "runConsensus api params maxNodes maxMs w = (Inr (results, audit), w')"
  obtains runs where
    "runK api params maxNodes maxMs (clampK (p_k params)) w = (Inr runs, w')"
    "results = consensusOf (localeCompare api) (clampK (p_k params)) (strict params) runs"
    "audit = map (\<lambda>r. (serpHash r, evidence r)) runs"
  using assms unfolding runConsensus_def
  by (auto simp: Let_def split: prod.splits sum.splits)


subsection \<open>Facts about the rounding\<close>

lemma roundHalfEven_of_int [simp]: "roundHalfEven (of_int n) = n"
  by (simp add: roundHalfEven_def)

lemma roundHalfEven_bounds: "\<lfloor>q\<rfloor> \<le> roundHalfEven q" "roundHalfEven q \<le> \<lfloor>q\<rfloor> + 1"
  by (simp_all add: roundHalfEven_def Let_def)

lemma roundHalfEven_mono: "q \<le> q' \<Longrightarrow> roundHalfEven q \<le> roundHalfEven q'"
proof -
  assume le: "q \<le> q'"
  then have fl: "\<lfloor>q\<rfloor> \<le> \<lfloor>q'\<rfloor>" by (rule floor_mono)
  show ?thesis
  proof (cases "\<lfloor>q\<rfloor> = \<lfloor>q'\<rfloor>")
    case True
    with le have "q - of_int \<lfloor>q\<rfloor> \<le> q' - of_int \<lfloor>q'\<rfloor>" by simp
    with True show ?thesis by (auto simp: roundHalfEven_def Let_def)
  next
    case False
    with fl have "\<lfloor>q\<rfloor> + 1 \<le> \<lfloor>q'\<rfloor>" by simp
    with roundHalfEven_bounds(2)[of q] roundHalfEven_bounds(1)[of q'] show ?thesis by linarith
  qed
qed

lemma ilog2_bounds:
  assumes "0 < x"
  shows "2 powi (ilog2 x) \<le> x" and "x < 2 powi (ilog2 x + 1)"
proof -
  have "2 powi (ilog2 x) \<le> x \<and> x < 2 powi (ilog2 x + 1)"
  proof (cases "1 \<le> x")
    case True
    define n where "n = \<lfloor>x\<rfloor>"
    define b where "b = bitlen n"
    from True have n1: "1 \<le> n" by (simp add: n_def le_floor_iff)
    from bitlen_bounds[of n] n1 have bb: "2 ^ nat (b - 1) \<le> n" "n < 2 ^ nat b"
      by (simp_all add: b_def)
    from bb(2) n1 have b1: "1 \<le> b" by (cases "b \<le> 0") auto
    have e: "ilog2 x = b - 1" using True by (simp add: ilog2_def b_def n_def)
    have "(2::rat) ^ nat (b - 1) = of_int (2 ^ nat (b - 1))" by simp
    also have "\<dots> \<le> of_int n" using bb(1) by (simp only: of_int_le_iff)
    also have "\<dots> \<le> x" by (simp add: n_def)
    finally have lo: "(2::rat) ^ nat (b - 1) \<le> x" .
    have "x < of_int (n + 1)" using floor_correct[of x] by (simp add: n_def)
    also have "\<dots> \<le> of_int (2 ^ nat b)" using bb(2) by (simp only: of_int_le_iff; simp)
    also have "\<dots> = (2::rat) ^ nat b" by simp
    finally have hi: "x < (2::rat) ^ nat b" .
    from lo hi b1 show ?thesis by (simp add: e power_int_def)
  next
    case False
    define y where "y = 1 / x"
    define c where "c = \<lceil>y\<rceil> - 1"
    define b where "b = bitlen c"
    from False assms have y1: "1 < y" by (simp add: y_def)
    then have c1: "1 \<le> c" by (simp add: c_def less_ceiling_iff)
    from bitlen_bounds[of c] c1 have bb: "2 ^ nat (b - 1) \<le> c" "c < 2 ^ nat b"
      by (simp_all add: b_def)
    from bb(2) c1 have b1: "1 \<le> b" by (cases "b \<le> 0") auto
    have e: "ilog2 x = - b" using False by (simp add: ilog2_def b_def c_def y_def)
    have x: "x = 1 / y" by (simp add: y_def)
    have ypos: "0 < y" using y1 by simp
    have "y \<le> of_int (c + 1)" using ceiling_correct[of y] by (simp add: c_def)
    also have "\<dots> \<le> of_int (2 ^ nat b)" using bb(2) by (simp only: of_int_le_iff; simp)
    also have "\<dots> = (2::rat) ^ nat b" by simp
    finally have yhi: "y \<le> (2::rat) ^ nat b" .
    have "(2::rat) ^ nat (b - 1) = of_int (2 ^ nat (b - 1))" by simp
    also have "\<dots> \<le> of_int c" using bb(1) by (simp only: of_int_le_iff)
    also have "\<dots> < y" using ceiling_correct[of y] by (simp add: c_def)
    finally have ylo: "(2::rat) ^ nat (b - 1) < y" .
    have lo: "1 / (2::rat) ^ nat b \<le> x"
      unfolding x using yhi ypos by (simp add: frac_le)
    have hi: "x < 1 / (2::rat) ^ nat (b - 1)"
      unfolding x using ylo by (simp add: frac_less2)
    have p1: "(2::rat) powi (- b) = 1 / 2 ^ nat b"
      using b1 by (simp add: power_int_def field_simps)
    have p2: "(2::rat) powi (1 - b) = 1 / 2 ^ nat (b - 1)"
      using b1 by (cases "b = 1") (simp_all add: power_int_def field_simps nat_diff_distrib)
    from lo hi show ?thesis by (simp add: e p1 p2)
  qed
  then show "2 powi (ilog2 x) \<le> x" and "x < 2 powi (ilog2 x + 1)" by simp_all
qed


lemma ilog2_mono:
  assumes "0 < x" "x \<le> y"
  shows "ilog2 x \<le> ilog2 y"
proof (rule ccontr)
  assume "\<not> ilog2 x \<le> ilog2 y"
  then have "ilog2 y + 1 \<le> ilog2 x" by simp
  then have "(2::rat) powi (ilog2 y + 1) \<le> 2 powi (ilog2 x)"
    by (intro power_int_increasing) simp_all
  also have "\<dots> \<le> x" by (rule ilog2_bounds(1)[OF assms(1)])
  also have "\<dots> \<le> y" by (rule assms(2))
  also have "\<dots> < 2 powi (ilog2 y + 1)"
    by (rule ilog2_bounds(2)) (use assms in simp)
  finally show False by simp
qed

lemma binary64_binade:
  assumes "0 < x"
  shows "2 powi (ilog2 x) \<le> binary64 x" and "binary64 x \<le> 2 powi (ilog2 x + 1)"
proof -
  define e where "e = ilog2 x"
  define u :: rat where "u = 2 powi (e - 52)"
  have upos: "0 < u" by (simp add: u_def)
  have b: "binary64 x = of_int (roundHalfEven (x / u)) * u"
    using assms by (simp add: binary64_def Let_def u_def e_def)
  have lo: "2 ^ 52 * u = 2 powi e"
    by (simp add: u_def power_int_diff)
  have hi: "2 ^ 53 * u = 2 powi (e + 1)"
    by (simp add: u_def power_int_diff power_int_add)
  from ilog2_bounds[OF assms] have x: "2 powi e \<le> x" "x < 2 powi (e + 1)"
    by (simp_all add: e_def)
  have "of_int (2 ^ 52) \<le> x / u"
    using x(1) upos lo by (simp add: pos_le_divide_eq)
  from roundHalfEven_mono[OF this] have r1: "2 ^ 52 \<le> roundHalfEven (x / u)"
    by (simp only: roundHalfEven_of_int)
  have "x / u \<le> of_int (2 ^ 53)"
    using x(2) upos hi by (simp add: pos_divide_le_eq)
  from roundHalfEven_mono[OF this] have r2: "roundHalfEven (x / u) \<le> 2 ^ 53"
    by (simp only: roundHalfEven_of_int)
  have "2 powi e = of_int (2 ^ 52) * u" using lo by simp
  also have "\<dots> \<le> of_int (roundHalfEven (x / u)) * u"
    using r1 upos by (intro mult_right_mono) (simp_all only: of_int_le_iff less_imp_le)
  finally show "2 powi (ilog2 x) \<le> binary64 x" by (simp add: b e_def)
  have "of_int (roundHalfEven (x / u)) * u \<le> of_int (2 ^ 53) * u"
    using r2 upos by (intro mult_right_mono) (simp_all only: of_int_le_iff less_imp_le)
  also have "\<dots> = 2 powi (e + 1)" using hi by simp
  finally show "binary64 x \<le> 2 powi (ilog2 x + 1)" by (simp add: b e_def)
qed

lemma binary64_nonneg: "0 \<le> binary64 x"
proof (cases "0 < x")
  case True
  have "(0::rat) \<le> 2 powi (ilog2 x)" by simp
  with binary64_binade(1)[OF True] show ?thesis by linarith
next
  case False
  then show ?thesis by (simp add: binary64_def)
qed

lemma binary64_mono:
  assumes "x \<le> y"
  shows "binary64 x \<le> binary64 y"
proof (cases "0 < x")
  case False
  then have "binary64 x = 0" by (simp add: binary64_def)
  with binary64_nonneg[of y] show ?thesis by simp
next
  case True
  with assms have ypos: "0 < y" by simp
  from ilog2_mono[OF True assms] have le: "ilog2 x \<le> ilog2 y" .
  show ?thesis
  proof (cases "ilog2 x = ilog2 y")
    case same: True
    define u :: rat where "u = 2 powi (ilog2 y - 52)"
    have upos: "0 < u" by (simp add: u_def)
    have "x / u \<le> y / u" using assms upos by (simp add: divide_right_mono)
    from roundHalfEven_mono[OF this] upos
    have "of_int (roundHalfEven (x / u)) * u \<le> of_int (roundHalfEven (y / u)) * u"
      by (intro mult_right_mono) (simp_all only: of_int_le_iff less_imp_le)
    with True ypos same show ?thesis by (simp add: binary64_def Let_def u_def)
  next
    case False
    with le have "ilog2 x + 1 \<le> ilog2 y" by simp
    then have "(2::rat) powi (ilog2 x + 1) \<le> 2 powi (ilog2 y)"
      by (intro power_int_increasing) simp_all
    with binary64_binade(2)[OF True] binary64_binade(1)[OF ypos] show ?thesis by linarith
  qed
qed


lemma binary64_values:
  "binary64 1 = 1"
  "binary64 (1 / 4) = 1 / 4"
  "binary64 (1 / 8) = 1 / 8"
  "binary64 (6 / 10) = 5404319552844595 / 9007199254740992"
  "binary64 (4 / 10) = 3602879701896397 / 9007199254740992"
  "binary64 (5404319552844595 / 9007199254740992) = 5404319552844595 / 9007199254740992"
  "binary64 (3602879701896397 / 9007199254740992) = 3602879701896397 / 9007199254740992"
  by code_simp+

lemma binary64_le_1: "x \<le> 1 \<Longrightarrow> binary64 x \<le> 1"
  using binary64_mono[of x 1] by (simp add: binary64_values)

lemma toFixed3_le_1:
  assumes "x \<le> 1"
  shows "toFixed3 x \<le> 1"
proof -
  from assms have "x * 1000 + 1 / 2 < 1001" by simp
  then have "\<lfloor>x * 1000 + 1 / 2\<rfloor> < 1001" by (simp only: floor_less_iff; simp)
  then have "\<lfloor>x * 1000 + 1 / 2\<rfloor> \<le> 1000" by simp
  then have "(of_int \<lfloor>x * 1000 + 1 / 2\<rfloor> :: rat) \<le> 1000" by (simp only: of_int_le_numeral_iff)
  then have "(of_int \<lfloor>x * 1000 + 1 / 2\<rfloor> :: rat) / 1000 \<le> 1" by simp
  then show ?thesis unfolding toFixed3_def by (rule binary64_le_1)
qed

lemma toFixed3_ge_eighth:
  assumes "1 / 8 \<le> x"
  shows "1 / 8 \<le> toFixed3 x"
proof -
  from assms have "of_int 125 \<le> x * 1000 + 1 / 2" by simp
  then have "125 \<le> \<lfloor>x * 1000 + 1 / 2\<rfloor>" by (simp only: le_floor_iff)
  then have "(of_int 125 :: rat) \<le> of_int \<lfloor>x * 1000 + 1 / 2\<rfloor>" by (simp only: of_int_le_iff)
  then have "1 / 8 \<le> (of_int \<lfloor>x * 1000 + 1 / 2\<rfloor> :: rat) / 1000" by simp
  from binary64_mono[OF this] show ?thesis by (simp add: toFixed3_def binary64_values)
qed

lemma confidenceOf_range:
  assumes "1 \<le> a" "a \<le> k" "k \<le> 3"
  shows "1 / 8 \<le> confidenceOf a k d" and "confidenceOf a k d \<le> 1"
proof -
  define c6 :: rat where "c6 = 5404319552844595 / 9007199254740992"
  define c4 :: rat where "c4 = 3602879701896397 / 9007199254740992"
  define r where "r = binary64 (of_nat a / of_nat k)"
  define s where "s = (case d of enat n \<Rightarrow> binary64 (1 / binary64 (1 + of_nat n)) | \<infinity> \<Rightarrow> 0)"
  define t1 where "t1 = binary64 (c6 * r)"
  define t2 where "t2 = binary64 (c4 * s)"
  have conf: "confidenceOf a k d = toFixed3 (binary64 (t1 + t2))"
    unfolding confidenceOf_def t1_def t2_def r_def s_def c6_def c4_def binary64_values(4,5) ..
  from assms have kpos: "0 < (of_nat k :: rat)" by simp
  have "(of_nat a :: rat) \<le> of_nat k" using assms(2) by (simp only: of_nat_le_iff)
  then have "(of_nat a :: rat) / of_nat k \<le> 1" using kpos by (simp add: pos_divide_le_eq)
  then have r1: "r \<le> 1" unfolding r_def by (rule binary64_le_1)
  have "(of_nat k :: rat) \<le> of_nat 3" using assms(3) by (simp only: of_nat_le_iff)
  moreover have "(of_nat 1 :: rat) \<le> of_nat a" using assms(1) by (simp only: of_nat_le_iff)
  ultimately have "(of_nat k :: rat) \<le> 4 * of_nat a" by simp
  then have "1 / 4 \<le> (of_nat a :: rat) / of_nat k" using kpos by (simp add: pos_le_divide_eq)
  from binary64_mono[OF this] have r4: "1 / 4 \<le> r" by (simp add: r_def binary64_values)
  have s0: "0 \<le> s" by (cases d) (simp_all add: s_def binary64_nonneg)
  have s1: "s \<le> 1"
  proof (cases d)
    case (enat n)
    have "binary64 1 \<le> binary64 (1 + of_nat n)" by (rule binary64_mono) simp
    then have "1 \<le> binary64 (1 + of_nat n)" by (simp add: binary64_values)
    then have "1 / binary64 (1 + of_nat n) \<le> 1" by simp
    then show ?thesis unfolding s_def enat by (simp add: binary64_le_1)
  next
    case infinity
    then show ?thesis by (simp add: s_def)
  qed
  have "c6 * r \<le> c6" using r1 by (simp add: c6_def)
  from binary64_mono[OF this] have t1hi: "t1 \<le> c6" by (simp add: t1_def c6_def binary64_values)
  have "1 / 8 \<le> c6 * r" using r4 by (simp add: c6_def)
  from binary64_mono[OF this] have t1lo: "1 / 8 \<le> t1" by (simp add: t1_def binary64_values)
  have "c4 * s \<le> c4" using s1 by (simp add: c4_def)
  from binary64_mono[OF this] have t2hi: "t2 \<le> c4" by (simp add: t2_def c4_def binary64_values)
  have t2lo: "0 \<le> t2" by (simp add: t2_def binary64_nonneg)
  have "c6 + c4 = 1" by (simp add: c6_def c4_def)
  with t1hi t2hi have "t1 + t2 \<le> 1" by linarith
  then have "binary64 (t1 + t2) \<le> 1" by (rule binary64_le_1)
  then show "confidenceOf a k d \<le> 1" unfolding conf by (rule toFixed3_le_1)
  from t1lo t2lo have "1 / 8 \<le> t1 + t2" by linarith
  from binary64_mono[OF this] have "1 / 8 \<le> binary64 (t1 + t2)" by (simp add: binary64_values)
  then show "1 / 8 \<le> confidenceOf a k d" unfolding conf by (rule toFixed3_ge_eighth)
qed

lemma confidenceOf_examples:
  "confidenceOf 2 2 (enat 0) = 1" "confidenceOf 1 2 (enat 1) = 1 / 2"
  by code_simp+


text \<open>
  For the run counts 1 to 3 and the depths 0 to 3 the double computation yields the
  double nearest to the exact score rounded to three decimals.
\<close>

lemma confidenceOf_exact_cases:
  "confidenceOf 1 1 (enat 0) = binary64 (exactScore 1 1 0)"
  "confidenceOf 1 1 (enat 1) = binary64 (exactScore 1 1 1)"
  "confidenceOf 1 1 (enat 2) = binary64 (exactScore 1 1 2)"
  "confidenceOf 1 1 (enat 3) = binary64 (exactScore 1 1 3)"
  "confidenceOf 1 2 (enat 0) = binary64 (exactScore 1 2 0)"
  "confidenceOf 1 2 (enat 1) = binary64 (exactScore 1 2 1)"
  "confidenceOf 1 2 (enat 2) = binary64 (exactScore 1 2 2)"
  "confidenceOf 1 2 (enat 3) = binary64 (exactScore 1 2 3)"
  "confidenceOf 2 2 (enat 0) = binary64 (exactScore 2 2 0)"
  "confidenceOf 2 2 (enat 1) = binary64 (exactScore 2 2 1)"
  "confidenceOf 2 2 (enat 2) = binary64 (exactScore 2 2 2)"
  "confidenceOf 2 2 (enat 3) = binary64 (exactScore 2 2 3)"
  "confidenceOf 1 3 (enat 0) = binary64 (exactScore 1 3 0)"
  "confidenceOf 1 3 (enat 1) = binary64 (exactScore 1 3 1)"
  "confidenceOf 1 3 (enat 2) = binary64 (exactScore 1 3 2)"
  "confidenceOf 1 3 (enat 3) = binary64 (exactScore 1 3 3)"
  "confidenceOf 2 3 (enat 0) = binary64 (exactScore 2 3 0)"
  "confidenceOf 2 3 (enat 1) = binary64 (exactScore 2 3 1)"
  "confidenceOf 2 3 (enat 2) = binary64 (exactScore 2 3 2)"
  "confidenceOf 2 3 (enat 3) = binary64 (exactScore 2 3 3)"
  "confidenceOf 3 3 (enat 0) = binary64 (exactScore 3 3 0)"
  "confidenceOf 3 3 (enat 1) = binary64 (exactScore 3 3 1)"
  "confidenceOf 3 3 (enat 2) = binary64 (exactScore 3 3 2)"
  "confidenceOf 3 3 (enat 3) = binary64 (exactScore 3 3 3)"
  by code_simp+

lemma confidenceOf_exact:
  assumes "1 \<le> a" "a \<le> k" "k \<le> 3" "d \<le> 3"
  shows "confidenceOf a k (enat d) = binary64 (exactScore a k d)"
proof -
  from assms have "k \<in> {1, 2, 3}" "a \<in> {1, 2, 3}" "d \<in> {0, 1, 2, 3}" by auto
  with assms(2) show ?thesis
    by (elim insertE emptyE; hypsubst; (simp only: confidenceOf_exact_cases | simp))
qed


section \<open>A scripted page with a child question\<close>

text \<open>
  Two browsers.  The first shows "what is x" and "why is x" and, once a control has been
  clicked, "how is x" between them; the second shows "what is x" and, once a control has
  been clicked, "how is x".  With depth 1 the first run records three questions, the
  second two, and "how is x" is found at depth 1 below "what is x".
\<close>

definition accItem :: "string \<Rightarrow> nat \<Rightarrow> char acc_item" where
  "accItem text i = \<lparr>question = text, a_orderIdx = i, path = ''div''\<rparr>"

definition treeScript :: "nat \<Rightarrow> nat \<Rightarrow> char acc_item list" where
  "treeScript run clicks =
     (if run = 1 then
        (if clicks = 0 then [accItem ''what is x'' 0, accItem ''why is x'' 1]
         else [accItem ''what is x'' 0, accItem ''how is x'' 1, accItem ''why is x'' 2])
      else
        (if clicks = 0 then [accItem ''what is x'' 0]
         else [accItem ''what is x'' 0, accItem ''how is x'' 1]))"

lemmas run_defs' = run_defs accItem_def treeScript_def

lemmas consensus_defs = runConsensus_def clampK_def consensusOf_def buildMap_def addItem_def
    aggregate_def topString_def countStrings_def jsSort_def mathMin_def threshold_def
    withConfidence_def compareResults_def

lemma confidenceOf_values:
  "confidenceOf 2 2 (enat 0) = 1"
  "confidenceOf 2 2 (enat 1) = 3602879701896397 / 4503599627370496"
  "confidenceOf 1 2 (enat 0) = 3152519739159347 / 4503599627370496"
  "confidenceOf 1 2 (enat 1) = 1 / 2"
  "confidenceOf (Suc (Suc 0)) 2 (enat 0) = 1"
  "confidenceOf (Suc (Suc 0)) 2 (enat (Suc 0)) = 3602879701896397 / 4503599627370496"
  "confidenceOf (Suc 0) 2 (enat 0) = 3152519739159347 / 4503599627370496"
  by code_simp+

definition strictResults :: "char ConsensusPAAResult list" where
  "strictResults =
     [\<lparr>c_question = ''what is x'', c_norm = ''what is x'', c_depth = enat 0, c_parent = None,
       appearances = 2, confidence = 1\<rparr>,
      \<lparr>c_question = ''how is x'', c_norm = ''how is x'', c_depth = enat 1,
       c_parent = Some ''what is x'', appearances = 2,
       confidence = 3602879701896397 / 4503599627370496\<rparr>]"

definition allResults :: "char ConsensusPAAResult list" where
  "allResults =
     [\<lparr>c_question = ''what is x'', c_norm = ''what is x'', c_depth = enat 0, c_parent = None,
       appearances = 2, confidence = 1\<rparr>,
      \<lparr>c_question = ''how is x'', c_norm = ''how is x'', c_depth = enat 1,
       c_parent = Some ''what is x'', appearances = 2,
       confidence = 3602879701896397 / 4503599627370496\<rparr>,
      \<lparr>c_question = ''why is x'', c_norm = ''why is x'', c_depth = enat 0, c_parent = None,
       appearances = 1, confidence = 3152519739159347 / 4503599627370496\<rparr>]"

definition treeRuns :: "char PAARunResult list" where
  "treeRuns =
     [\<lparr>items =
         [\<lparr>raw = ''what is x'', norm = ''what is x'', depth = 0, parent = None,
           domPath = ''div'', orderIdx = 0\<rparr>,
          \<lparr>raw = ''why is x'', norm = ''why is x'', depth = 0, parent = None,
           domPath = ''div'', orderIdx = 1\<rparr>,
          \<lparr>raw = ''how is x'', norm = ''how is x'', depth = 1, parent = Some ''what is x'',
           domPath = ''div'', orderIdx = 1\<rparr>],
       evidence = \<lparr>fullScreenshotB64 = Some [], paaHtml = Some [],
                    paaCropsB64 = Some [[], [], []]\<rparr>,
       serpHash = []\<rparr>,
      \<lparr>items =
         [\<lparr>raw = ''what is x'', norm = ''what is x'', depth = 0, parent = None,
           domPath = ''div'', orderIdx = 0\<rparr>,
          \<lparr>raw = ''how is x'', norm = ''how is x'', depth = 1, parent = Some ''what is x'',
           domPath = ''div'', orderIdx = 1\<rparr>],
       evidence = \<lparr>fullScreenshotB64 = Some [], paaHtml = Some [],
                    paaCropsB64 = Some [[], []]\<rparr>,
       serpHash = []\<rparr>]"

lemma treePage_runs:
  "runK (scriptedPage treeScript True) (demoParams 1 2 s) 220 45000 2 (0, 0) = (Inr treeRuns, (2, 1))"
  by (simp add: run_defs' numeral_2_eq_2 treeRuns_def)

lemma treePage_consensus:
  "runConsensus (scriptedPage treeScript True) (demoParams 1 2 s) 220 45000 (0, 0) =
     (Inr (consensusOf compareUnits 2 s treeRuns, map (\<lambda>r. (serpHash r, evidence r)) treeRuns),
      (2, 1))"
proof -
  have "clampK (p_k (demoParams 1 2 s)) = 2" by (simp add: clampK_def demoParams_def)
  moreover have "strict (demoParams 1 2 s) = s" by (simp add: demoParams_def)
  moreover have "localeCompare (scriptedPage treeScript True) = compareUnits"
    by (simp add: scriptedPage_def)
  ultimately show ?thesis by (simp add: runConsensus_def treePage_runs)
qed

lemma treeRuns_strict: "consensusOf compareUnits 2 True treeRuns = strictResults"
  by (simp add: consensus_defs confidenceOf_values strictResults_def treeRuns_def)

lemma treeRuns_all: "consensusOf compareUnits 2 False treeRuns = allResults"
  by (simp add: consensus_defs confidenceOf_values allResults_def treeRuns_def)

lemma compareUnits_flip: "compareUnits b a = - compareUnits a b"
  by (induction a b rule: compareUnits.induct) auto

lemma compareUnits_trans:
  "compareUnits a b \<le> 0 \<Longrightarrow> compareUnits b c \<le> 0 \<Longrightarrow> compareUnits a c \<le> 0"
proof (induction a b arbitrary: c rule: compareUnits.induct)
  case 1
  then show ?case by simp
next
  case (2 y ys)
  then show ?case by (cases c) simp_all
next
  case (3 x xs)
  then show ?case by simp
next
  case (4 x xs y ys)
  show ?case
  proof (cases c)
    case Nil
    with 4 show ?thesis by (simp split: if_splits)
  next
    case (Cons z zs)
    with 4 show ?thesis by (auto split: if_splits)
  qed
qed

lemma consistent_compareUnits: "consistent (compareUnits :: 'c::linorder list \<Rightarrow> _)"
  unfolding consistent_def
  using compareUnits_flip compareUnits_trans by (metis neg_0_le_iff_le less_imp_le)


section \<open>Claims about runConsensus\<close>

text \<open>
  C3.  For every result of \<open>runConsensus\<close>, the appearance count lies between 1 and the
  clamped run count \<open>K\<close>.  The reason is as the claim gives it: \<open>runConsensus\<close> has made
  \<open>K\<close> runs, the items of each run have pairwise different normalized texts, and the
  appearance count is the number of items of all runs with the normalized text of the
  result.
\<close>

theorem runConsensus_appearances_range:
  assumes "runConsensus api params maxNodes maxMs w = (Inr (results, audit), w')"
    and "r \<in> set results"
  shows "1 \<le> appearances r \<and> appearances r \<le> clampK (p_k params) \<and>
         (\<exists>runs. runK api params maxNodes maxMs (clampK (p_k params)) w = (Inr runs, w') \<and>
            length runs = clampK (p_k params) \<and>
            (\<forall>run \<in> set runs. distinct (map norm (items run))) \<and>
            appearances r = occurrences runs (c_norm r))"
proof -
  from assms(1) obtain runs where
    k: "runK api params maxNodes maxMs (clampK (p_k params)) w = (Inr runs, w')"
    and res: "results = consensusOf (localeCompare api) (clampK (p_k params)) (strict params) runs"
    by (rule runConsensus_Inr)
  from runK_runs[OF k] have len: "length runs = clampK (p_k params)"
    and dist: "\<forall>run \<in> set runs. distinct (map norm (items run))" by simp_all
  from assms(2) res have
    r: "r \<in> set (consensusOf (localeCompare api) (clampK (p_k params)) (strict params) runs)"
    by simp
  note a = consensusOf_result(1)[OF r] and pos = consensusOf_result(3)[OF r]
  from occurrences_le_runs[OF dist, of "c_norm r"] a len
  have "appearances r \<le> clampK (p_k params)" by simp
  with pos k len dist a show ?thesis by auto
qed

text \<open>
  C3, witness: the two runs on the scripted page, without the quorum; "why is x" was seen
  in one of the two runs.
\<close>

theorem runConsensus_appearances_range_witness:
  "runConsensus (scriptedPage treeScript True) (demoParams 1 2 False) 220 45000 (0, 0) =
     (Inr (allResults, map (\<lambda>r. (serpHash r, evidence r)) treeRuns), (2, 1)) \<and>
   1 \<le> appearances (allResults ! 2) \<and>
   appearances (allResults ! 2) \<le> clampK (p_k (demoParams 1 2 False))"
proof -
  have run: "runConsensus (scriptedPage treeScript True) (demoParams 1 2 False) 220 45000 (0, 0) =
     (Inr (allResults, map (\<lambda>r. (serpHash r, evidence r)) treeRuns), (2, 1))"
    by (simp add: treePage_consensus treeRuns_all)
  have mem: "allResults ! 2 \<in> set allResults" by (simp add: allResults_def)
  from runConsensus_appearances_range[OF run mem] run show ?thesis by blast
qed

text \<open>
  C4.  For every result of \<open>runConsensus\<close>, the confidence is the value that the source
  computes in double arithmetic from the appearances, the clamped run count \<open>K\<close> and the
  depth, \<open>Number((0.6 * (appearances / K) + 0.4 * (1 / (1 + depth))).toFixed(3))\<close>; it is
  greater than 0 and at most 1; for depths up to 3 it is the double nearest to the exact
  value of \<open>0.6 \<times> (appearances / K) + 0.4 \<times> (1 / (1 + depth))\<close> rounded to three decimals;
  and for \<open>K = 2\<close> the score of 2 appearances at depth 0 is exactly 1 and the score of 1
  appearance at depth 1 is exactly 0.5.
\<close>

theorem runConsensus_confidence:
  assumes "runConsensus api params maxNodes maxMs w = (Inr (results, audit), w')"
    and "r \<in> set results"
  shows "confidence r = confidenceOf (appearances r) (clampK (p_k params)) (c_depth r) \<and>
         0 < confidence r \<and> confidence r \<le> 1 \<and>
         (\<forall>d \<le> 3. c_depth r = enat d \<longrightarrow>
            confidence r = binary64 (exactScore (appearances r) (clampK (p_k params)) d)) \<and>
         confidenceOf 2 2 (enat 0) = 1 \<and> confidenceOf 1 2 (enat 1) = 1 / 2"
proof -
  from assms(1) obtain runs where
    k: "runK api params maxNodes maxMs (clampK (p_k params)) w = (Inr runs, w')"
    and res: "results = consensusOf (localeCompare api) (clampK (p_k params)) (strict params) runs"
    by (rule runConsensus_Inr)
  from runK_runs[OF k] have len: "length runs = clampK (p_k params)"
    and dist: "\<forall>run \<in> set runs. distinct (map norm (items run))" by simp_all
  from assms(2) res have
    r: "r \<in> set (consensusOf (localeCompare api) (clampK (p_k params)) (strict params) runs)"
    by simp
  note a = consensusOf_result(1)[OF r] and pos = consensusOf_result(3)[OF r]
    and c = consensusOf_result(4)[OF r]
  from occurrences_le_runs[OF dist, of "c_norm r"] a len
  have le: "appearances r \<le> clampK (p_k params)" by simp
  from pos have one: "1 \<le> appearances r" by simp
  note rng = confidenceOf_range[OF one le clampK_range(2), of "c_depth r"]
  have exact: "confidence r = binary64 (exactScore (appearances r) (clampK (p_k params)) d)"
    if "d \<le> 3" "c_depth r = enat d" for d
    using confidenceOf_exact[OF one le clampK_range(2) that(1)] c that(2) by simp
  from rng c have p: "0 < confidence r" "confidence r \<le> 1" by simp_all
  from exact have e: "\<forall>d \<le> 3. c_depth r = enat d \<longrightarrow>
      confidence r = binary64 (exactScore (appearances r) (clampK (p_k params)) d)" by blast
  from c p e confidenceOf_values(1) confidenceOf_values(4) show ?thesis by blast
qed

text \<open>
  C4, witness: the end-to-end scenario of the strict consensus of two runs; "what is x",
  seen twice at depth 0, has confidence 1.
\<close>

theorem runConsensus_confidence_witness:
  "runConsensus (scriptedPage treeScript True) (demoParams 1 2 True) 220 45000 (0, 0) =
     (Inr (strictResults, map (\<lambda>r. (serpHash r, evidence r)) treeRuns), (2, 1)) \<and>
   confidence (strictResults ! 0) = confidenceOf 2 2 (enat 0) \<and>
   0 < confidence (strictResults ! 0) \<and> confidence (strictResults ! 0) \<le> 1 \<and>
   confidence (strictResults ! 0) = binary64 (exactScore 2 2 0)"
proof -
  have run: "runConsensus (scriptedPage treeScript True) (demoParams 1 2 True) 220 45000 (0, 0) =
     (Inr (strictResults, map (\<lambda>r. (serpHash r, evidence r)) treeRuns), (2, 1))"
    by (simp add: treePage_consensus treeRuns_strict)
  have mem: "strictResults ! 0 \<in> set strictResults" by (simp add: strictResults_def)
  have k: "clampK (p_k (demoParams 1 2 True)) = 2" by (simp add: clampK_def demoParams_def)
  have a: "appearances (strictResults ! 0) = 2" "c_depth (strictResults ! 0) = enat 0"
    by (simp_all add: strictResults_def)
  from runConsensus_confidence[OF run mem] run show ?thesis
    unfolding k a by simp
qed

text \<open>
  C6.  Let \<open>runs\<close> be the \<open>K\<close> runs of \<open>runConsensus\<close>.  The results are, without
  repetition, exactly the normalized texts whose number of occurrences in the runs is at
  least \<open>min K 2\<close> in strict mode and at least 1 otherwise, each with that number as its
  appearance count.  In particular, with \<open>K = 2\<close> a text that occurs once is not among the
  results in strict mode and is among them otherwise.
\<close>

theorem runConsensus_quorum:
  assumes "runConsensus api params maxNodes maxMs w = (Inr (results, audit), w')"
    and "runK api params maxNodes maxMs (clampK (p_k params)) w = (Inr runs, w'')"
  shows "c_norm ` set results =
           {n. (if strict params then min (clampK (p_k params)) 2 else 1) \<le> occurrences runs n} \<and>
         distinct (map c_norm results) \<and>
         (\<forall>r \<in> set results. appearances r = occurrences runs (c_norm r)) \<and>
         (\<forall>n. occurrences runs n = 1 \<longrightarrow>
            (n \<in> c_norm ` set results \<longleftrightarrow> \<not> (strict params \<and> clampK (p_k params) \<noteq> 1)))"
proof -
  from assms(1) obtain runs' where
    k: "runK api params maxNodes maxMs (clampK (p_k params)) w = (Inr runs', w')"
    and res: "results = consensusOf (localeCompare api) (clampK (p_k params)) (strict params) runs'"
    by (rule runConsensus_Inr)
  from k assms(2) have same: "runs' = runs" by simp
  note norms = consensusOf_norms[OF clampK_range(1), of "localeCompare api" "p_k params"
      "strict params" runs, folded res[unfolded same], unfolded threshold_def]
  have d: "distinct (map c_norm results)" unfolding res by (rule consensusOf_distinct)
  have a: "\<forall>r \<in> set results. appearances r = occurrences runs (c_norm r)"
    unfolding res same using consensusOf_result(1) by blast
  have one: "n \<in> c_norm ` set results \<longleftrightarrow> \<not> (strict params \<and> clampK (p_k params) \<noteq> 1)"
    if "occurrences runs n = 1" for n
    unfolding norms using that clampK_range(1)[of "p_k params"] by (auto simp: min_def)
  from norms d a one show ?thesis by blast
qed

text \<open>
  C6, witness: of the two runs on the scripted page, "why is x" occurs in one.  The strict
  consensus leaves it out; without the quorum it is a result.
\<close>

theorem runConsensus_quorum_witness:
  "runConsensus (scriptedPage treeScript True) (demoParams 1 2 True) 220 45000 (0, 0) =
     (Inr (strictResults, map (\<lambda>r. (serpHash r, evidence r)) treeRuns), (2, 1)) \<and>
   runK (scriptedPage treeScript True) (demoParams 1 2 True) 220 45000 2 (0, 0) =
     (Inr treeRuns, (2, 1)) \<and>
   occurrences treeRuns ''why is x'' = 1 \<and>
   ''why is x'' \<notin> c_norm ` set strictResults \<and>
   runConsensus (scriptedPage treeScript True) (demoParams 1 2 False) 220 45000 (0, 0) =
     (Inr (allResults, map (\<lambda>r. (serpHash r, evidence r)) treeRuns), (2, 1)) \<and>
   ''why is x'' \<in> c_norm ` set allResults"
proof -
  have k: "clampK (p_k (demoParams 1 2 s)) = 2" for s by (simp add: clampK_def demoParams_def)
  have st: "strict (demoParams 1 2 s) = s" for s by (simp add: demoParams_def)
  have run: "runConsensus (scriptedPage treeScript True) (demoParams 1 2 True) 220 45000 (0, 0) =
     (Inr (strictResults, map (\<lambda>r. (serpHash r, evidence r)) treeRuns), (2, 1))"
    by (simp add: treePage_consensus treeRuns_strict)
  have run': "runConsensus (scriptedPage treeScript True) (demoParams 1 2 False) 220 45000 (0, 0) =
     (Inr (allResults, map (\<lambda>r. (serpHash r, evidence r)) treeRuns), (2, 1))"
    by (simp add: treePage_consensus treeRuns_all)
  have occ: "occurrences treeRuns ''why is x'' = 1"
    by (simp add: occurrences_def treeRuns_def)
  note t = runConsensus_quorum[OF run, unfolded k st, OF treePage_runs]
  note f = runConsensus_quorum[OF run', unfolded k st, OF treePage_runs]
  from t occ have "''why is x'' \<notin> c_norm ` set strictResults" by simp
  moreover from f occ have "''why is x'' \<in> c_norm ` set allResults" by simp
  ultimately show ?thesis using run run' occ treePage_runs by blast
qed

text \<open>
  C7.  The results of \<open>runConsensus\<close> are sorted by descending appearances, then by
  ascending depth, then by ascending normalized text in the order of \<open>localeCompare\<close>, the
  comparison of strings that the source uses, for every collation that is a consistent
  comparator.
\<close>

theorem runConsensus_sorted:
  assumes "runConsensus api params maxNodes maxMs w = (Inr (results, audit), w')"
    and "consistent (localeCompare api)"
  shows "sorted_wrt (ranked (localeCompare api)) results"
proof -
  from assms(1) obtain runs where
    "results = consensusOf (localeCompare api) (clampK (p_k params)) (strict params) runs"
    by (rule runConsensus_Inr)
  with consensusOf_sorted[OF assms(2)] show ?thesis by simp
qed

text \<open>
  C7, witness: the results with appearances 2, 2, 1 and depths 0, 1, 0 of the two runs on
  the scripted page come in this order.
\<close>

theorem runConsensus_sorted_witness:
  "runConsensus (scriptedPage treeScript True) (demoParams 1 2 False) 220 45000 (0, 0) =
     (Inr (allResults, map (\<lambda>r. (serpHash r, evidence r)) treeRuns), (2, 1)) \<and>
   map appearances allResults = [2, 2, 1] \<and>
   map c_depth allResults = [enat 0, enat 1, enat 0] \<and>
   sorted_wrt (ranked compareUnits) allResults"
proof -
  have run: "runConsensus (scriptedPage treeScript True) (demoParams 1 2 False) 220 45000 (0, 0) =
     (Inr (allResults, map (\<lambda>r. (serpHash r, evidence r)) treeRuns), (2, 1))"
    by (simp add: treePage_consensus treeRuns_all)
  have lc: "localeCompare (scriptedPage treeScript True) = compareUnits"
    by (simp add: scriptedPage_def)
  have c: "consistent (localeCompare (scriptedPage treeScript True))"
    unfolding lc by (rule consistent_compareUnits)
  have "map appearances allResults = [2, 2, 1]"
    "map c_depth allResults = [enat 0, enat 1, enat 0]"
    by (simp_all add: allResults_def)
  with runConsensus_sorted[OF run c] run lc show ?thesis by simp
qed


section \<open>The tracking worker: question hashes (worker/src/utils/questions.ts)\<close>

text \<open>
  A JavaScript string is its sequence of UTF-16 code units.  The regular expressions of
  \<open>normalizeQuestion\<close> have neither the \<open>u\<close> nor the \<open>i\<close> flag, so they read code units:
  \<open>\w\<close> is \<open>[A-Za-z0-9_]\<close>, \<open>\s\<close> is the white space and the line terminators of
  ECMAScript, which are also what \<open>trim\<close> removes.
\<close>

type_synonym jsstring = "nat list"

definition js :: "string \<Rightarrow> jsstring" where
  "js s = map of_char s"

definition isWord :: "nat \<Rightarrow> bool" where
  "isWord c \<longleftrightarrow> 48 \<le> c \<and> c \<le> 57 \<or> 65 \<le> c \<and> c \<le> 90 \<or> c = 95 \<or> 97 \<le> c \<and> c \<le> 122"

definition isSpace :: "nat \<Rightarrow> bool" where
  "isSpace c \<longleftrightarrow>
     9 \<le> c \<and> c \<le> 13 \<or> c = 32 \<or> c = 160 \<or> c = 5760 \<or> 8192 \<le> c \<and> c \<le> 8202 \<or>
     c = 8232 \<or> c = 8233 \<or> c = 8239 \<or> c = 8287 \<or> c = 12288 \<or> c = 65279"

definition jsTrim :: "jsstring \<Rightarrow> jsstring" where
  "jsTrim s = rev (dropWhile isSpace (rev (dropWhile isSpace s)))"

text \<open>\<open>.replace(/[^\w\s']/g, '')\<close>: the apostrophe is code unit 39.\<close>

definition stripPunctuation :: "jsstring \<Rightarrow> jsstring" where
  "stripPunctuation s = filter (\<lambda>c. isWord c \<or> isSpace c \<or> c = 39) s"

text \<open>\<open>.replace(/\s+/g, ' ')\<close>: every maximal run of white space becomes one space.\<close>

function collapseSpaces :: "jsstring \<Rightarrow> jsstring" where
  "collapseSpaces [] = []"
| "collapseSpaces (c # cs) =
     (if isSpace c then 32 # collapseSpaces (dropWhile isSpace cs) else c # collapseSpaces cs)"
  by pat_completeness auto
termination
  by (relation "measure length") (auto simp: le_imp_less_Suc length_dropWhile_le)

text \<open>
  \<open>.replace(/\b(the|a|an)\b/g, '')\<close>.  The scan goes from left to right; at each position
  the alternatives are tried in the order written, the first that matches between two word
  boundaries is removed and the scan goes on after it; otherwise the code unit is kept.
  \<open>prev\<close> is the code unit before the position, in the string that is scanned.
\<close>

definition wordChar :: "nat option \<Rightarrow> bool" where
  "wordChar c = (case c of None \<Rightarrow> False | Some u \<Rightarrow> isWord u)"

definition boundary :: "nat option \<Rightarrow> nat option \<Rightarrow> bool" where
  "boundary before after \<longleftrightarrow> wordChar before \<noteq> wordChar after"

definition articles :: "jsstring list" where
  "articles = [js ''the'', js ''a'', js ''an'']"

definition firstUnit :: "jsstring \<Rightarrow> nat option" where
  "firstUnit s = (case s of [] \<Rightarrow> None | c # _ \<Rightarrow> Some c)"

definition matchesAt :: "nat option \<Rightarrow> jsstring \<Rightarrow> jsstring \<Rightarrow> bool" where
  "matchesAt prev s alt \<longleftrightarrow>
     boundary prev (firstUnit s) \<and> take (length alt) s = alt \<and>
     boundary (Some (last alt)) (firstUnit (drop (length alt) s))"

definition matchArticle :: "nat option \<Rightarrow> jsstring \<Rightarrow> jsstring option" where
  "matchArticle prev s =
     (case filter (matchesAt prev s) articles of [] \<Rightarrow> None | alt # _ \<Rightarrow> Some alt)"

function removeArticlesFrom :: "nat option \<Rightarrow> jsstring \<Rightarrow> jsstring" where
  "removeArticlesFrom prev [] = []"
| "removeArticlesFrom prev (c # cs) =
     (case matchArticle prev (c # cs) of
        Some alt \<Rightarrow> removeArticlesFrom (Some (last alt)) (drop (length alt - 1) cs)
      | None \<Rightarrow> c # removeArticlesFrom (Some c) cs)"
  by pat_completeness auto
termination
  by (relation "measure (\<lambda>(prev, s). length s)") auto

text \<open>
  \<open>String.prototype.toLowerCase\<close> follows the case mappings of Unicode, which are not part
  of the repository: it is a parameter.  \<open>toLowerCaseAscii\<close> is what it does on ASCII text.
\<close>

definition normalizeQuestion :: "(jsstring \<Rightarrow> jsstring) \<Rightarrow> jsstring \<Rightarrow> jsstring" where
  "normalizeQuestion toLowerCase question' =
     jsTrim (removeArticlesFrom None
       (collapseSpaces (stripPunctuation (jsTrim (toLowerCase question')))))"

definition toLowerCaseAscii :: "jsstring \<Rightarrow> jsstring" where
  "toLowerCaseAscii s = map (\<lambda>c. if 65 \<le> c \<and> c \<le> 90 then c + 32 else c) s"

text \<open>
  \<open>encodeURIComponent\<close>: the unreserved marks and alphanumerics stay, every other code
  point is written as the percent-escaped bytes of its UTF-8 form, and a surrogate without
  its partner throws \<open>URIError\<close>.
\<close>

definition hexDigit :: "nat \<Rightarrow> nat" where
  "hexDigit n = (if n < 10 then 48 + n else 55 + n)"

definition percent :: "nat \<Rightarrow> jsstring" where
  "percent b = [37, hexDigit (b div 16), hexDigit (b mod 16)]"

definition utf8 :: "nat \<Rightarrow> nat list" where
  "utf8 cp =
     (if cp < 128 then [cp]
      else if cp < 2048 then [192 + cp div 64, 128 + cp mod 64]
      else if cp < 65536 then [224 + cp div 4096, 128 + cp div 64 mod 64, 128 + cp mod 64]
      else [240 + cp div 262144, 128 + cp div 4096 mod 64, 128 + cp div 64 mod 64,
            128 + cp mod 64])"

definition uriUnreserved :: "nat \<Rightarrow> bool" where
  "uriUnreserved c \<longleftrightarrow>
     48 \<le> c \<and> c \<le> 57 \<or> 65 \<le> c \<and> c \<le> 90 \<or> 97 \<le> c \<and> c \<le> 122 \<or>
     c \<in> {45, 95, 46, 33, 126, 42, 39, 40, 41}"

definition highSurrogate :: "nat \<Rightarrow> bool" where
  "highSurrogate c \<longleftrightarrow> 55296 \<le> c \<and> c \<le> 56319"

definition lowSurrogate :: "nat \<Rightarrow> bool" where
  "lowSurrogate c \<longleftrightarrow> 56320 \<le> c \<and> c \<le> 57343"

definition escaped :: "nat \<Rightarrow> jsstring" where
  "escaped cp = concat (map percent (utf8 cp))"

fun encodeURIComponent :: "jsstring \<Rightarrow> error + jsstring" where
  "encodeURIComponent [] = Inr []"
| "encodeURIComponent (c # cs) =
     (if uriUnreserved c then map_sum id ((#) c) (encodeURIComponent cs)
      else if lowSurrogate c then Inl (Error ''URIError'')
      else if highSurrogate c then
        (case cs of
           [] \<Rightarrow> Inl (Error ''URIError'')
         | d # ds \<Rightarrow>
             if lowSurrogate d then
               map_sum id ((@) (escaped (65536 + (c - 55296) * 1024 + (d - 56320))))
                 (encodeURIComponent ds)
             else Inl (Error ''URIError''))
      else map_sum id ((@) (escaped c)) (encodeURIComponent cs))"

text \<open>\<open>btoa\<close> throws for a code unit above 255 and is base64 with padding otherwise.\<close>

definition base64Digit :: "nat \<Rightarrow> nat" where
  "base64Digit i =
     (if i < 26 then 65 + i else if i < 52 then 71 + i else if i < 62 then i - 4
      else if i = 62 then 43 else 47)"

fun base64 :: "nat list \<Rightarrow> jsstring" where
  "base64 (a # b # c # rest) =
     base64Digit (a div 4) # base64Digit (a mod 4 * 16 + b div 16) #
     base64Digit (b mod 16 * 4 + c div 64) # base64Digit (c mod 64) # base64 rest"
| "base64 [a, b] =
     [base64Digit (a div 4), base64Digit (a mod 4 * 16 + b div 16),
      base64Digit (b mod 16 * 4), 61]"
| "base64 [a] = [base64Digit (a div 4), base64Digit (a mod 4 * 16), 61, 61]"
| "base64 [] = []"

definition btoa :: "jsstring \<Rightarrow> error + jsstring" where
  "btoa s = (if \<forall>c \<in> set s. c \<le> 255 then Inr (base64 s) else Inl (Error ''InvalidCharacterError''))"

text \<open>\<open>btoa(encodeURIComponent(normalized)).slice(0, 32)\<close>\<close>

definition hashQuestion :: "(jsstring \<Rightarrow> jsstring) \<Rightarrow> jsstring \<Rightarrow> error + jsstring" where
  "hashQuestion toLowerCase question' =
     (case encodeURIComponent (normalizeQuestion toLowerCase question') of
        Inl e \<Rightarrow> Inl e
      | Inr encoded \<Rightarrow> map_sum id (take 32) (btoa encoded))"

section \<open>The tracking worker: one check of a keyword (checkKeyword, diffPAALists)\<close>

text \<open>
  The two argument arrays of \<open>diffPAALists\<close>, and its result.  \<open>Map.has\<close> on the maps
  built from the arrays is membership of the hash among the hashes of the array.
  \<open>findIndex\<close> returns -1 when no element satisfies the predicate.
\<close>

record prev_entry =
  p_question :: jsstring
  p_hash :: jsstring

record curr_entry =
  cq_question :: jsstring
  cq_hash :: jsstring
  cq_position :: nat
  cq_type :: jsstring

record position_change =
  pc_question :: jsstring
  pc_hash :: jsstring
  oldPosition :: int
  newPosition :: int

record DiffResult =
  added :: "curr_entry list"
  removed :: "prev_entry list"
  positionChanges :: "position_change list"

fun findIndex :: "('a \<Rightarrow> bool) \<Rightarrow> 'a list \<Rightarrow> int" where
  "findIndex P [] = - 1"
| "findIndex P (x # xs) =
     (if P x then 0 else let i = findIndex P xs in if i < 0 then - 1 else i + 1)"

definition positionChangeOf :: "prev_entry list \<Rightarrow> curr_entry \<Rightarrow> position_change list" where
  "positionChangeOf previous cur =
     (if cq_hash cur \<in> set (map p_hash previous) then
        let prevIndex = findIndex (\<lambda>p. p_hash p = cq_hash cur) previous
        in if prevIndex \<noteq> int (cq_position cur) then
             [\<lparr>pc_question = cq_question cur, pc_hash = cq_hash cur,
               oldPosition = prevIndex, newPosition = int (cq_position cur)\<rparr>]
           else []
      else [])"

definition diffPAALists :: "prev_entry list \<Rightarrow> curr_entry list \<Rightarrow> DiffResult" where
  "diffPAALists previous current =
     \<lparr>added = filter (\<lambda>q. cq_hash q \<notin> set (map p_hash previous)) current,
      removed = filter (\<lambda>q. p_hash q \<notin> set (map cq_hash current)) previous,
      positionChanges = concat (map (positionChangeOf previous) current)\<rparr>"

text \<open>
  \<open>checkKeyword\<close> reads the result of SerpAPI (\<open>currentPAA\<close>) and the rows of
  \<open>paa_questions\<close> that are current (\<open>previousQuestions\<close>), and writes to the database.  The
  two reads are arguments here, and the writes are returned as the list of statements in
  the order in which they are run; the fetch and the statements are taken to succeed.  Of
  a fetched question the text and the type are kept (the diff reads nothing else), of a row
  the id, the text, the hash and the two statistics, of a statement the values that come
  from the questions: the id of the keyword, the ids of new rows, the timestamps and the
  type of a new row (\<open>detectQuestionType\<close>) are left out.  An exception of \<open>hashQuestion\<close>
  leaves \<open>checkKeyword\<close> before the first write.  Step 7 hashes each question again and
  takes \<open>currentPAA.indexOf(current)\<close>, which are the hash and the position that step 3
  has put in the entry.  The running mean is computed in doubles; \<open>null\<close> counts as 0.
\<close>

record PAAFetchResult =
  f_question :: jsstring
  f_type :: jsstring

record PAAQuestion =
  q_id :: jsstring
  pq_question :: jsstring
  question_hash :: jsstring
  times_seen :: nat
  avg_position :: "rat option"

datatype change_type = added_change | removed_change | position_change

datatype db_write =
    InsertSnapshot "PAAFetchResult list"
  | InsertQuestion jsstring jsstring nat
  | InsertChange change_type jsstring jsstring "int option" "int option"
  | MarkNotCurrent jsstring
  | UpdateSeen jsstring nat rat
  | UpdateLastChecked

fun hashAll :: "(jsstring \<Rightarrow> jsstring) \<Rightarrow> PAAFetchResult list \<Rightarrow> error + jsstring list" where
  "hashAll lc [] = Inr []"
| "hashAll lc (q # qs) =
     (case hashQuestion lc (f_question q) of
        Inl e \<Rightarrow> Inl e
      | Inr h \<Rightarrow> map_sum id ((#) h) (hashAll lc qs))"

definition currentEntries :: "PAAFetchResult list \<Rightarrow> jsstring list \<Rightarrow> curr_entry list" where
  "currentEntries currentPAA hashes =
     map (\<lambda>(i, q, h). \<lparr>cq_question = f_question q, cq_hash = h, cq_position = i,
                        cq_type = f_type q\<rparr>)
       (zip [0..<length currentPAA] (zip currentPAA hashes))"

definition recordAdded :: "curr_entry \<Rightarrow> db_write list" where
  "recordAdded a =
     [InsertQuestion (cq_question a) (cq_hash a) (cq_position a),
      InsertChange added_change (cq_question a) (cq_hash a) None (Some (int (cq_position a)))]"

definition recordRemoved :: "prev_entry \<Rightarrow> db_write list" where
  "recordRemoved r =
     [MarkNotCurrent (p_hash r), InsertChange removed_change (p_question r) (p_hash r) None None]"

definition updateSeen :: "PAAQuestion list \<Rightarrow> curr_entry \<Rightarrow> db_write list" where
  "updateSeen previousQuestions c =
     (case find (\<lambda>p. question_hash p = cq_hash c) previousQuestions of
        None \<Rightarrow> []
      | Some prev \<Rightarrow>
          [UpdateSeen (q_id prev) (times_seen prev + 1)
             (binary64 (binary64
               (binary64 ((case avg_position prev of None \<Rightarrow> 0 | Some a \<Rightarrow> a) *
                  of_nat (times_seen prev)) + of_nat (cq_position c)) /
              of_nat (times_seen prev + 1)))])"

definition recordMove :: "position_change \<Rightarrow> db_write list" where
  "recordMove moved =
     (if 2 \<le> \<bar>oldPosition moved - newPosition moved\<bar> then
        [InsertChange position_change (pc_question moved) (pc_hash moved)
           (Some (oldPosition moved)) (Some (newPosition moved))]
      else [])"

definition checkKeyword ::
  "(jsstring \<Rightarrow> jsstring) \<Rightarrow> PAAQuestion list \<Rightarrow> PAAFetchResult list \<Rightarrow>
   error + DiffResult \<times> db_write list" where
  "checkKeyword lc previousQuestions currentPAA =
     (case hashAll lc currentPAA of
        Inl e \<Rightarrow> Inl e
      | Inr hashes \<Rightarrow>
          let current = currentEntries currentPAA hashes;
              diff = diffPAALists
                (map (\<lambda>q. \<lparr>p_question = pq_question q, p_hash = question_hash q\<rparr>)
                   previousQuestions) current
          in Inr (diff,
               [InsertSnapshot currentPAA] @
               concat (map recordAdded (added diff)) @
               concat (map recordRemoved (removed diff)) @
               concat (map (updateSeen previousQuestions) current) @
               concat (map recordMove (positionChanges diff)) @
               [UpdateLastChecked]))"

text \<open>The statements that insert a change of kind \<open>position_change\<close> with new position \<open>i\<close>.\<close>

definition positionChangeFor :: "nat \<Rightarrow> db_write \<Rightarrow> bool" where
  "positionChangeFor i w =
     (case w of
        InsertChange kind _ _ _ new \<Rightarrow> kind = position_change \<and> new = Some (int i)
      | _ \<Rightarrow> False)"

lemmas nq_defs = normalizeQuestion_def js_def toLowerCaseAscii_def jsTrim_def stripPunctuation_def isWord_def isSpace_def
    matchArticle_def matchesAt_def articles_def boundary_def wordChar_def firstUnit_def

lemmas hash_defs = hashQuestion_def btoa_def base64Digit_def uriUnreserved_def lowSurrogate_def highSurrogate_def
  escaped_def utf8_def percent_def hexDigit_def

section \<open>Facts about the tracking worker\<close>

subsection \<open>The diff\<close>

lemma diff_identical:
  assumes "set (map p_hash previous) = set (map cq_hash current)"
  shows "added (diffPAALists previous current) = []" "removed (diffPAALists previous current) = []"
  using assms by (auto simp: diffPAALists_def filter_empty_conv)

lemma diff_disjoint:
  assumes "set (map p_hash previous) \<inter> set (map cq_hash current) = {}"
  shows "added (diffPAALists previous current) = current"
    "removed (diffPAALists previous current) = previous"
    "positionChanges (diffPAALists previous current) = []"
proof -
  from assms have c: "\<forall>q \<in> set current. cq_hash q \<notin> set (map p_hash previous)" by auto
  from assms have p: "\<forall>q \<in> set previous. p_hash q \<notin> set (map cq_hash current)" by auto
  show "added (diffPAALists previous current) = current"
    using c by (simp add: diffPAALists_def filter_id_conv)
  show "removed (diffPAALists previous current) = previous"
    using p by (simp add: diffPAALists_def filter_id_conv)
  have "map (positionChangeOf previous) current = map (\<lambda>cur. []) current"
    using c by (intro map_cong) (auto simp: positionChangeOf_def)
  then show "positionChanges (diffPAALists previous current) = []"
    by (simp add: diffPAALists_def)
qed


lemma filter_concat_none:
  assumes "\<And>x w. x \<in> set xs \<Longrightarrow> w \<in> set (M x) \<Longrightarrow> \<not> P w"
  shows "filter P (concat (map M xs)) = []"
  using assms by (auto simp: filter_empty_conv)

lemma filter_concat_index:
  assumes "i < length xs"
    and "\<And>k w. k < length xs \<Longrightarrow> w \<in> set (M (xs ! k)) \<Longrightarrow> P w \<longleftrightarrow> k = i"
  shows "filter P (concat (map M xs)) = M (xs ! i)"
  using assms
proof (induction xs arbitrary: i)
  case Nil
  then show ?case by simp
next
  case (Cons x xs)
  show ?case
  proof (cases i)
    case 0
    have here: "filter P (M x) = M x"
      using Cons.prems(2)[of 0] 0 by (simp add: filter_id_conv)
    have "filter P (concat (map M xs)) = []"
    proof (rule filter_concat_none)
      fix y w assume "y \<in> set xs" "w \<in> set (M y)"
      then obtain k where "k < length xs" "xs ! k = y" by (auto simp: in_set_conv_nth)
      with Cons.prems(2)[of "Suc k" w] \<open>w \<in> set (M y)\<close> 0 show "\<not> P w" by simp
    qed
    with here 0 show ?thesis by simp
  next
    case (Suc j)
    have "filter P (M x) = []"
      using Cons.prems(2)[of 0] Suc by (simp add: filter_empty_conv)
    moreover have "filter P (concat (map M xs)) = M (xs ! j)"
    proof (rule Cons.IH)
      show "j < length xs" using Cons.prems(1) Suc by simp
      fix k w assume "k < length xs" "w \<in> set (M (xs ! k))"
      with Cons.prems(2)[of "Suc k" w] Suc show "P w \<longleftrightarrow> k = j" by simp
    qed
    ultimately show ?thesis using Suc by simp
  qed
qed

lemma hashAll_Inr:
  "hashAll lc qs = Inr hashes \<Longrightarrow>
   length hashes = length qs \<and> (\<forall>i < length qs. hashQuestion lc (f_question (qs ! i)) = Inr (hashes ! i))"
proof (induction qs arbitrary: hashes)
  case Nil
  then show ?case by simp
next
  case (Cons q qs)
  from Cons.prems obtain h hs where h: "hashQuestion lc (f_question q) = Inr h"
    and hs: "hashAll lc qs = Inr hs" and e: "hashes = h # hs"
    by (auto split: sum.splits simp: map_sum_def)
  from Cons.IH[OF hs] h e show ?case by (auto simp: nth_Cons split: nat.splits)
qed

lemma currentEntries_nth:
  assumes "length hashes = length currentPAA" "i < length currentPAA"
  shows "length (currentEntries currentPAA hashes) = length currentPAA"
    and "currentEntries currentPAA hashes ! i =
      \<lparr>cq_question = f_question (currentPAA ! i), cq_hash = hashes ! i, cq_position = i,
       cq_type = f_type (currentPAA ! i)\<rparr>"
  using assms by (simp_all add: currentEntries_def)


lemma no_move_recordAdded: "w \<in> set (recordAdded a) \<Longrightarrow> \<not> positionChangeFor i w"
  by (auto simp: recordAdded_def positionChangeFor_def)

lemma no_move_recordRemoved: "w \<in> set (recordRemoved r) \<Longrightarrow> \<not> positionChangeFor i w"
  by (auto simp: recordRemoved_def positionChangeFor_def)

lemma no_move_updateSeen: "w \<in> set (updateSeen rows c) \<Longrightarrow> \<not> positionChangeFor i w"
  by (auto simp: updateSeen_def positionChangeFor_def split: option.splits)

text \<open>The position-change records that one entry of the current list leads to.\<close>

definition movesOf :: "prev_entry list \<Rightarrow> curr_entry \<Rightarrow> db_write list" where
  "movesOf previous c = concat (map recordMove (positionChangeOf previous c))"

lemma moves_concat:
  "concat (map recordMove (concat (map (positionChangeOf previous) current))) =
   concat (map (movesOf previous) current)"
  by (induction current) (simp_all add: movesOf_def)

lemma movesOf_position:
  "w \<in> set (movesOf previous c) \<Longrightarrow> positionChangeFor i w \<longleftrightarrow> cq_position c = i"
  by (auto simp: movesOf_def positionChangeOf_def recordMove_def positionChangeFor_def Let_def
      split: if_splits)

lemma movesOf_eq:
  "movesOf previous c =
     (if cq_hash c \<in> set (map p_hash previous) \<and>
         2 \<le> \<bar>findIndex (\<lambda>p. p_hash p = cq_hash c) previous - int (cq_position c)\<bar>
      then [InsertChange position_change (cq_question c) (cq_hash c)
              (Some (findIndex (\<lambda>p. p_hash p = cq_hash c) previous))
              (Some (int (cq_position c)))]
      else [])"
  by (auto simp: movesOf_def positionChangeOf_def recordMove_def Let_def)

lemma findIndex_map: "findIndex P (map f xs) = findIndex (P \<circ> f) xs"
  by (induction xs) (simp_all add: Let_def)

lemma findIndex_none: "\<forall>x \<in> set xs. \<not> P x \<Longrightarrow> findIndex P xs = - 1"
  by (induction xs) (simp_all add: Let_def)

lemma findIndex_first:
  "\<exists>x \<in> set xs. P x \<Longrightarrow>
   \<exists>j < length xs. findIndex P xs = int j \<and> P (xs ! j) \<and> (\<forall>k < j. \<not> P (xs ! k))"
proof (induction xs)
  case Nil
  then show ?case by simp
next
  case (Cons x xs)
  show ?case
  proof (cases "P x")
    case True
    then have "findIndex P (x # xs) = int 0 \<and> P ((x # xs) ! 0) \<and> (\<forall>k < 0. \<not> P ((x # xs) ! k))"
      by simp
    then show ?thesis by blast
  next
    case False
    with Cons.prems have "\<exists>x \<in> set xs. P x" by simp
    from Cons.IH[OF this] obtain j where j: "j < length xs" "findIndex P xs = int j" "P (xs ! j)"
      "\<forall>k < j. \<not> P (xs ! k)" by blast
    have "\<not> P ((x # xs) ! k)" if "k < Suc j" for k
      using that False j(4) by (cases k) simp_all
    with j False have "Suc j < length (x # xs) \<and> findIndex P (x # xs) = int (Suc j) \<and>
        P ((x # xs) ! Suc j) \<and> (\<forall>k < Suc j. \<not> P ((x # xs) ! k))"
      by (simp add: Let_def)
    then show ?thesis by blast
  qed
qed

lemma checkKeyword_moves:
  assumes ck: "checkKeyword lc rows currentPAA = Inr (diff, writes)"
    and i: "i < length currentPAA"
    and h: "hashQuestion lc (f_question (currentPAA ! i)) = Inr h"
  shows "filter (positionChangeFor i) writes =
     (if h \<in> question_hash ` set rows \<and>
         2 \<le> \<bar>findIndex (\<lambda>p. question_hash p = h) rows - int i\<bar>
      then [InsertChange position_change (f_question (currentPAA ! i)) h
              (Some (findIndex (\<lambda>p. question_hash p = h) rows)) (Some (int i))]
      else [])"
proof -
  define previous where
    "previous = map (\<lambda>q. \<lparr>p_question = pq_question q, p_hash = question_hash q\<rparr>) rows"
  from ck obtain hashes where hs: "hashAll lc currentPAA = Inr hashes"
    by (auto simp: checkKeyword_def split: sum.splits)
  define current where "current = currentEntries currentPAA hashes"
  from hashAll_Inr[OF hs] i h have len: "length hashes = length currentPAA"
    and hi: "hashes ! i = h" by auto
  note ce = currentEntries_nth[OF len]
  have clen: "length current = length currentPAA" using ce(1)[OF i] by (simp add: current_def)
  have cnth: "current ! k = \<lparr>cq_question = f_question (currentPAA ! k), cq_hash = hashes ! k,
       cq_position = k, cq_type = f_type (currentPAA ! k)\<rparr>" if "k < length currentPAA" for k
    using ce(2)[OF that] by (simp add: current_def)
  from ck hs have writes: "writes =
       [InsertSnapshot currentPAA] @
       concat (map recordAdded (added (diffPAALists previous current))) @
       concat (map recordRemoved (removed (diffPAALists previous current))) @
       concat (map (updateSeen rows) current) @
       concat (map (movesOf previous) current) @
       [UpdateLastChecked]"
  proof -
    have pc: "concat (map recordMove (positionChanges (diffPAALists previous current))) =
        concat (map (movesOf previous) current)"
      by (simp add: diffPAALists_def moves_concat)
    from ck hs have "writes =
       [InsertSnapshot currentPAA] @
       concat (map recordAdded (added (diffPAALists previous current))) @
       concat (map recordRemoved (removed (diffPAALists previous current))) @
       concat (map (updateSeen rows) current) @
       concat (map recordMove (positionChanges (diffPAALists previous current))) @
       [UpdateLastChecked]"
      by (auto simp: checkKeyword_def Let_def previous_def current_def)
    then show ?thesis by (simp only: pc)
  qed
  have a: "filter (positionChangeFor i) (concat (map recordAdded xs)) = []" for xs
    by (rule filter_concat_none) (rule no_move_recordAdded)
  have r: "filter (positionChangeFor i) (concat (map recordRemoved xs)) = []" for xs
    by (rule filter_concat_none) (rule no_move_recordRemoved)
  have u: "filter (positionChangeFor i) (concat (map (updateSeen rows) xs)) = []" for xs
    by (rule filter_concat_none) (rule no_move_updateSeen)
  have m: "filter (positionChangeFor i) (concat (map (movesOf previous) current)) =
           movesOf previous (current ! i)"
  proof (rule filter_concat_index)
    show "i < length current" using i clen by simp
    fix k w assume "k < length current" "w \<in> set (movesOf previous (current ! k))"
    with movesOf_position[of w previous "current ! k" i] cnth[of k] clen
    show "positionChangeFor i w \<longleftrightarrow> k = i" by simp
  qed
  have f: "filter (positionChangeFor i) writes = movesOf previous (current ! i)"
    unfolding writes by (simp add: a r u m positionChangeFor_def)
  have p: "p_hash ` set previous = question_hash ` set rows"
    by (simp add: previous_def image_image)
  have fi: "findIndex (\<lambda>p. p_hash p = h) previous = findIndex (\<lambda>p. question_hash p = h) rows"
    by (simp add: previous_def findIndex_map comp_def)
  show ?thesis
    unfolding f movesOf_eq cnth[OF i] by (simp add: hi p fi)
qed


subsection \<open>Whitespace at the ends\<close>

lemma isSpace_not_isWord: "isSpace c \<Longrightarrow> \<not> isWord c"
  by (auto simp: isSpace_def isWord_def)

definition trimEnd :: "jsstring \<Rightarrow> jsstring" where
  "trimEnd s = rev (dropWhile isSpace (rev s))"

lemma jsTrim_alt: "jsTrim s = trimEnd (dropWhile isSpace s)"
  by (simp add: jsTrim_def trimEnd_def)

lemma trimEnd_Nil [simp]: "trimEnd [] = []"
  by (simp add: trimEnd_def)

lemma trimEnd_Cons:
  "trimEnd (c # s) = (if isSpace c \<and> trimEnd s = [] then [] else c # trimEnd s)"
  by (auto simp: trimEnd_def dropWhile_append dropWhile_eq_Nil_conv)

lemma trim_commute: "trimEnd (dropWhile isSpace s) = dropWhile isSpace (trimEnd s)"
  by (induction s) (auto simp: trimEnd_Cons)

lemma trimEnd_spaces: "\<forall>c \<in> set q. isSpace c \<Longrightarrow> trimEnd (s @ q) = trimEnd s"
  by (simp add: trimEnd_def dropWhile_append)

lemma jsTrim_spaces:
  assumes "\<forall>c \<in> set p. isSpace c" "\<forall>c \<in> set q. isSpace c"
  shows "jsTrim (p @ m @ q) = jsTrim m"
proof -
  have "jsTrim (p @ m @ q) = trimEnd (dropWhile isSpace (m @ q))"
    using assms(1) by (simp add: jsTrim_alt dropWhile_append)
  also have "\<dots> = dropWhile isSpace (trimEnd (m @ q))" by (rule trim_commute)
  also have "\<dots> = dropWhile isSpace (trimEnd m)" using assms(2) by (simp add: trimEnd_spaces)
  also have "\<dots> = jsTrim m" by (simp add: jsTrim_alt trim_commute)
  finally show ?thesis .
qed

lemma jsTrim_decompose:
  obtains p q where "\<forall>c \<in> set p. isSpace c" "\<forall>c \<in> set q. isSpace c" "s = p @ jsTrim s @ q"
proof
  let ?r = "dropWhile isSpace s"
  show "\<forall>c \<in> set (takeWhile isSpace s). isSpace c" by (auto dest: set_takeWhileD)
  show "\<forall>c \<in> set (rev (takeWhile isSpace (rev ?r))). isSpace c" by (auto dest: set_takeWhileD)
  have "rev (rev ?r) = rev (takeWhile isSpace (rev ?r) @ dropWhile isSpace (rev ?r))"
    by (simp only: takeWhile_dropWhile_id)
  then have "?r = trimEnd ?r @ rev (takeWhile isSpace (rev ?r))"
    by (simp only: rev_append rev_rev_ident trimEnd_def)
  then have "s = takeWhile isSpace s @ trimEnd ?r @ rev (takeWhile isSpace (rev ?r))"
    by (metis takeWhile_dropWhile_id)
  then show "s = takeWhile isSpace s @ jsTrim s @ rev (takeWhile isSpace (rev ?r))"
    by (simp add: jsTrim_alt)
qed


subsection \<open>Runs of whitespace\<close>

lemma dropWhile_all: "\<forall>x \<in> set xs. P x \<Longrightarrow> dropWhile P xs = []"
  by (simp add: dropWhile_eq_Nil_conv)

lemma collapseSpaces_spaces:
  "\<forall>c \<in> set q. isSpace c \<Longrightarrow> collapseSpaces q = (if q = [] then [] else [32])"
  by (cases q) (simp_all add: dropWhile_all)

lemma isSpace_32 [simp]: "isSpace 32"
  by (simp add: isSpace_def)

lemma collapseSpaces_dropWhile:
  "jsTrim (collapseSpaces s) = jsTrim (collapseSpaces (dropWhile isSpace s))"
proof (cases s)
  case Nil
  then show ?thesis by simp
next
  case (Cons c cs)
  show ?thesis
  proof (cases "isSpace c")
    case True
    have "jsTrim ([32] @ collapseSpaces (dropWhile isSpace cs) @ []) =
          jsTrim (collapseSpaces (dropWhile isSpace cs))"
      by (rule jsTrim_spaces) simp_all
    with True Cons show ?thesis by simp
  next
    case False
    with Cons show ?thesis by simp
  qed
qed

lemma collapseSpaces_leading:
  assumes "\<forall>c \<in> set p. isSpace c"
  shows "jsTrim (collapseSpaces (p @ y)) = jsTrim (collapseSpaces y)"
proof -
  have "dropWhile isSpace (p @ y) = dropWhile isSpace y"
    using assms by (simp add: dropWhile_append)
  then show ?thesis
    using collapseSpaces_dropWhile[of "p @ y"] collapseSpaces_dropWhile[of y] by simp
qed

lemma collapseSpaces_trailing:
  assumes "\<forall>c \<in> set q. isSpace c"
  shows "\<exists>t. (\<forall>c \<in> set t. isSpace c) \<and> collapseSpaces (y @ q) = collapseSpaces y @ t"
proof (induction y rule: collapseSpaces.induct)
  case 1
  show ?case using collapseSpaces_spaces[OF assms] by auto
next
  case (2 c cs)
  show ?case
  proof (cases "isSpace c")
    case False
    with 2(2) show ?thesis by auto
  next
    case True
    show ?thesis
    proof (cases "\<forall>x \<in> set cs. isSpace x")
      case all: True
      with assms have "\<forall>x \<in> set (cs @ q). isSpace x" by auto
      then have d: "dropWhile isSpace (cs @ q) = []" by (rule dropWhile_all)
      from all have d': "dropWhile isSpace cs = []" by (rule dropWhile_all)
      have "collapseSpaces ((c # cs) @ q) = collapseSpaces (c # cs) @ []"
        using True by (simp del: dropWhile_append add: d d')
      then show ?thesis by (intro exI[of _ "[]"]) simp
    next
      case False
      then have "dropWhile isSpace (cs @ q) = dropWhile isSpace cs @ q"
        by (auto simp: dropWhile_append)
      with 2(1)[OF True] True show ?thesis by simp
    qed
  qed
qed

lemma collapseSpaces_ends:
  assumes "\<forall>c \<in> set p. isSpace c" "\<forall>c \<in> set q. isSpace c"
  shows "jsTrim (collapseSpaces (p @ y @ q)) = jsTrim (collapseSpaces y)"
proof -
  from collapseSpaces_trailing[OF assms(2), of y] obtain t where
    t: "\<forall>c \<in> set t. isSpace c" "collapseSpaces (y @ q) = collapseSpaces y @ t" by blast
  have "jsTrim (collapseSpaces (p @ y @ q)) = jsTrim (collapseSpaces (y @ q))"
    by (rule collapseSpaces_leading[OF assms(1)])
  also have "\<dots> = jsTrim ([] @ collapseSpaces y @ t)" by (simp add: t(2))
  also have "\<dots> = jsTrim (collapseSpaces y)" by (rule jsTrim_spaces) (use t(1) in simp_all)
  finally show ?thesis .
qed

lemma stripPunctuation_spaces:
  "\<forall>c \<in> set p. isSpace c \<Longrightarrow> stripPunctuation p = p"
  by (simp add: stripPunctuation_def filter_id_conv)

lemma stripPunctuation_append [simp]:
  "stripPunctuation (a @ b) = stripPunctuation a @ stripPunctuation b"
  by (simp add: stripPunctuation_def)

lemma canonical_trim:
  "jsTrim (collapseSpaces (stripPunctuation (jsTrim x))) =
   jsTrim (collapseSpaces (stripPunctuation x))"
proof -
  obtain p q where p: "\<forall>c \<in> set p. isSpace c" and q: "\<forall>c \<in> set q. isSpace c"
    and x: "x = p @ jsTrim x @ q" by (rule jsTrim_decompose)
  have "stripPunctuation x = p @ stripPunctuation (jsTrim x) @ q"
    by (subst x) (simp add: stripPunctuation_spaces p q)
  then show ?thesis by (simp add: collapseSpaces_ends[OF p q])
qed


subsection \<open>Articles\<close>

lemma articles_word: "alt \<in> set articles \<Longrightarrow> c \<in> set alt \<Longrightarrow> isWord c"
  by (auto simp: articles_def js_def isWord_def)

lemma articles_nonempty: "alt \<in> set articles \<Longrightarrow> alt \<noteq> []"
  by (auto simp: articles_def js_def)

lemma matchesAt_cong: "wordChar p = wordChar p' \<Longrightarrow> matchesAt p s alt = matchesAt p' s alt"
  by (simp add: matchesAt_def boundary_def)

lemma matchArticle_cong: "wordChar p = wordChar p' \<Longrightarrow> matchArticle p s = matchArticle p' s"
proof -
  assume "wordChar p = wordChar p'"
  then have "matchesAt p s = matchesAt p' s" by (intro ext matchesAt_cong)
  then show ?thesis by (simp add: matchArticle_def)
qed

lemma removeArticlesFrom_cong:
  "wordChar p = wordChar p' \<Longrightarrow> removeArticlesFrom p s = removeArticlesFrom p' s"
  by (cases s) (simp_all add: matchArticle_cong[of p p'])

lemma matchArticle_Some:
  "matchArticle p s = Some alt \<Longrightarrow> alt \<in> set articles \<and> matchesAt p s alt"
proof -
  assume "matchArticle p s = Some alt"
  then obtain rest where "filter (matchesAt p s) articles = alt # rest"
    by (cases "filter (matchesAt p s) articles") (simp_all add: matchArticle_def)
  then have "alt \<in> set (filter (matchesAt p s) articles)" by simp
  then show ?thesis by simp
qed

lemma matchArticle_nonword:
  assumes "\<not> isWord c"
  shows "matchArticle p (c # s) = None"
proof -
  have "\<not> matchesAt p (c # s) alt" if "alt \<in> set articles" for alt
  proof
    assume "matchesAt p (c # s) alt"
    then have t: "take (length alt) (c # s) = alt" by (simp add: matchesAt_def)
    from articles_nonempty[OF that] obtain a as where alt: "alt = a # as" by (cases alt) auto
    with t have "a = c" by simp
    with articles_word[OF that, of a] alt assms show False by simp
  qed
  then have "filter (matchesAt p (c # s)) articles = []" by (simp add: filter_empty_conv)
  then show ?thesis by (simp add: matchArticle_def)
qed

lemma removeArticlesFrom_nonword:
  "\<not> isWord c \<Longrightarrow> removeArticlesFrom p (c # s) = c # removeArticlesFrom (Some c) s"
  by (simp add: matchArticle_nonword)

lemma removeArticlesFrom_leading:
  "\<forall>c \<in> set p. \<not> isWord c \<Longrightarrow> \<not> wordChar pr \<Longrightarrow>
   removeArticlesFrom pr (p @ x) = p @ removeArticlesFrom None x"
proof (induction p arbitrary: pr)
  case Nil
  then show ?case using removeArticlesFrom_cong[of pr None x] by (simp add: wordChar_def)
next
  case (Cons c p)
  from Cons.prems have c: "\<not> isWord c" by simp
  then have "\<not> wordChar (Some c)" by (simp add: wordChar_def)
  with Cons.IH[of "Some c"] Cons.prems(1) c show ?case
    by (simp del: removeArticlesFrom.simps add: removeArticlesFrom_nonword)
qed

lemma removeArticlesFrom_nonwords:
  "\<forall>c \<in> set q. \<not> isWord c \<Longrightarrow> removeArticlesFrom pr q = q"
  by (induction q arbitrary: pr)
    (simp_all del: removeArticlesFrom.simps(2) add: removeArticlesFrom_nonword)

lemma firstUnit_nonword:
  "\<forall>c \<in> set q. \<not> isWord c \<Longrightarrow> wordChar (firstUnit q) = False"
  by (cases q) (simp_all add: firstUnit_def wordChar_def)

lemma matchesAt_append:
  assumes q: "\<forall>c \<in> set q. \<not> isWord c" and alt: "alt \<in> set articles" and s: "s \<noteq> []"
  shows "matchesAt p (s @ q) alt = matchesAt p s alt"
proof (cases "length alt \<le> length s")
  case True
  have f: "firstUnit (s @ q) = firstUnit s" using s by (cases s) (simp_all add: firstUnit_def)
  have w: "wordChar (firstUnit (drop (length alt) s @ q)) = wordChar (firstUnit (drop (length alt) s))"
  proof (cases "drop (length alt) s")
    case Nil
    then show ?thesis using firstUnit_nonword[OF q] by (simp add: firstUnit_def wordChar_def)
  next
    case (Cons d ds)
    then show ?thesis by (simp add: firstUnit_def)
  qed
  from True show ?thesis by (simp add: matchesAt_def f boundary_def w)
next
  case False
  then have short: "length s < length alt" by simp
  have n1: "take (length alt) s \<noteq> alt"
  proof
    assume "take (length alt) s = alt"
    then have "length (take (length alt) s) = length alt" by (rule arg_cong)
    with short show False by simp
  qed
  have n2: "take (length alt) (s @ q) \<noteq> alt"
  proof
    assume e: "take (length alt) (s @ q) = alt"
    then have a: "alt = s @ take (length alt - length s) q" using short by simp
    have "take (length alt - length s) q \<noteq> []"
    proof
      assume "take (length alt - length s) q = []"
      with a have "alt = s" by simp
      with short show False by simp
    qed
    then obtain d where d: "d \<in> set (take (length alt - length s) q)"
      by (cases "take (length alt - length s) q") auto
    then have "d \<in> set q" by (rule in_set_takeD)
    moreover have "set alt = set s \<union> set (take (length alt - length s) q)"
      by (subst a) simp
    with d have "d \<in> set alt" by simp
    ultimately show False using q articles_word[OF alt] by blast
  qed
  from n1 n2 show ?thesis by (simp add: matchesAt_def)
qed

lemma matchArticle_append:
  assumes "\<forall>c \<in> set q. \<not> isWord c" "s \<noteq> []"
  shows "matchArticle p (s @ q) = matchArticle p s"
proof -
  have "filter (matchesAt p (s @ q)) articles = filter (matchesAt p s) articles"
    by (rule filter_cong) (simp_all add: matchesAt_append[OF assms(1) _ assms(2)])
  then show ?thesis by (simp add: matchArticle_def)
qed

lemma removeArticlesFrom_trailing:
  assumes q: "\<forall>c \<in> set q. \<not> isWord c"
  shows "removeArticlesFrom pr (s @ q) = removeArticlesFrom pr s @ q"
proof (induction pr s rule: removeArticlesFrom.induct)
  case (1 prev)
  show ?case using removeArticlesFrom_nonwords[OF q] by simp
next
  case (2 prev c cs)
  have m: "matchArticle prev (c # cs @ q) = matchArticle prev (c # cs)"
    using matchArticle_append[OF q, of "c # cs" prev] by simp
  show ?case
  proof (cases "matchArticle prev (c # cs)")
    case None
    with 2(1)[OF None] m show ?thesis by simp
  next
    case (Some alt)
    from matchArticle_Some[OF Some] have "take (length alt) (c # cs) = alt"
      by (simp add: matchesAt_def)
    then have "length (take (length alt) (c # cs)) = length alt" by (rule arg_cong)
    then have "length alt \<le> length (c # cs)" by simp
    then have "drop (length alt - 1) (cs @ q) = drop (length alt - 1) cs @ q" by simp
    with 2(2)[OF Some] m Some show ?thesis by simp
  qed
qed

lemma removeArticlesFrom_ends:
  assumes "\<forall>c \<in> set p. isSpace c" "\<forall>c \<in> set q. isSpace c"
  shows "jsTrim (removeArticlesFrom None (p @ m @ q)) = jsTrim (removeArticlesFrom None m)"
proof -
  from assms have p: "\<forall>c \<in> set p. \<not> isWord c" and q: "\<forall>c \<in> set q. \<not> isWord c"
    by (auto dest: isSpace_not_isWord)
  have "removeArticlesFrom None (p @ m @ q) = p @ removeArticlesFrom None m @ q"
    by (simp add: removeArticlesFrom_leading[OF p] removeArticlesFrom_trailing[OF q] wordChar_def)
  then show ?thesis by (simp add: jsTrim_spaces[OF assms])
qed

text \<open>
  The text in lower case without its punctuation, with single spaces and no space at the
  ends: what is left of a question when case, punctuation other than the apostrophe and
  the underscore, and the amount of white space are ignored.
\<close>

definition canonical :: "(jsstring \<Rightarrow> jsstring) \<Rightarrow> jsstring \<Rightarrow> jsstring" where
  "canonical toLowerCase s = jsTrim (collapseSpaces (stripPunctuation (toLowerCase s)))"

lemma normalizeQuestion_canonical:
  "normalizeQuestion lc s = jsTrim (removeArticlesFrom None (canonical lc s))"
proof -
  define z where "z = collapseSpaces (stripPunctuation (jsTrim (lc s)))"
  obtain p q where p: "\<forall>c \<in> set p. isSpace c" and q: "\<forall>c \<in> set q. isSpace c"
    and z: "z = p @ jsTrim z @ q" by (rule jsTrim_decompose)
  have "normalizeQuestion lc s = jsTrim (removeArticlesFrom None (p @ jsTrim z @ q))"
    using z by (simp add: normalizeQuestion_def z_def)
  also have "\<dots> = jsTrim (removeArticlesFrom None (jsTrim z))"
    by (rule removeArticlesFrom_ends[OF p q])
  also have "jsTrim z = canonical lc s" by (simp add: z_def canonical_def canonical_trim)
  finally show ?thesis .
qed

subsection \<open>The hash is defined\<close>

definition plain :: "nat \<Rightarrow> bool" where
  "plain c \<longleftrightarrow> isWord c \<or> c = 32 \<or> c = 39"

lemma set_jsTrim: "set (jsTrim s) \<subseteq> set s"
proof
  fix c assume "c \<in> set (jsTrim s)"
  then have "c \<in> set (dropWhile isSpace (rev (dropWhile isSpace s)))" by (simp add: jsTrim_def)
  then have "c \<in> set (rev (dropWhile isSpace s))" by (rule set_dropWhileD)
  then have "c \<in> set (dropWhile isSpace s)" by simp
  then show "c \<in> set s" by (rule set_dropWhileD)
qed

lemma set_removeArticlesFrom: "set (removeArticlesFrom pr s) \<subseteq> set s"
proof (induction pr s rule: removeArticlesFrom.induct)
  case (1 prev)
  show ?case by simp
next
  case (2 prev c cs)
  show ?case
  proof (cases "matchArticle prev (c # cs)")
    case None
    with 2(1)[OF None] show ?thesis by auto
  next
    case (Some alt)
    have "set (drop (length alt - 1) cs) \<subseteq> set cs" by (rule set_drop_subset)
    with 2(2)[OF Some] Some show ?thesis by auto
  qed
qed

lemma collapseSpaces_plain:
  "\<forall>c \<in> set s. isWord c \<or> isSpace c \<or> c = 39 \<Longrightarrow> \<forall>c \<in> set (collapseSpaces s). plain c"
proof (induction s rule: collapseSpaces.induct)
  case 1
  show ?case by simp
next
  case (2 c cs)
  show ?case
  proof (cases "isSpace c")
    case True
    have "\<forall>c \<in> set (dropWhile isSpace cs). isWord c \<or> isSpace c \<or> c = 39"
      using 2(3) by (auto dest: set_dropWhileD)
    with 2(1)[OF True] True show ?thesis by (simp add: plain_def)
  next
    case False
    with 2(2)[OF False] 2(3) show ?thesis by (auto simp: plain_def)
  qed
qed

lemma normalizeQuestion_plain: "\<forall>c \<in> set (normalizeQuestion lc s). plain c"
proof -
  have "\<forall>c \<in> set (stripPunctuation (jsTrim (lc s))). isWord c \<or> isSpace c \<or> c = 39"
    by (simp add: stripPunctuation_def)
  then have "\<forall>c \<in> set (collapseSpaces (stripPunctuation (jsTrim (lc s)))). plain c"
    by (rule collapseSpaces_plain)
  then show ?thesis
    unfolding normalizeQuestion_def using set_jsTrim set_removeArticlesFrom by blast
qed

lemma encodeURIComponent_plain:
  "\<forall>c \<in> set s. plain c \<Longrightarrow> \<exists>e. encodeURIComponent s = Inr e \<and> (\<forall>c \<in> set e. c \<le> 255)"
proof (induction s)
  case Nil
  then show ?case by simp
next
  case (Cons c s)
  then obtain e where e: "encodeURIComponent s = Inr e" "\<forall>c \<in> set e. c \<le> 255" by auto
  from Cons.prems have "plain c" by simp
  then consider (u) "uriUnreserved c" "c \<le> 255" | (sp) "c = 32"
    by (auto simp: plain_def isWord_def uriUnreserved_def)
  then show ?case
  proof cases
    case u
    with e show ?thesis by simp
  next
    case sp
    with e show ?thesis
      by (simp add: uriUnreserved_def lowSurrogate_def highSurrogate_def escaped_def utf8_def
          percent_def hexDigit_def)
  qed
qed

lemma hashQuestion_Inr: "\<exists>h. hashQuestion lc s = Inr h \<and> length h \<le> 32"
proof -
  from encodeURIComponent_plain[OF normalizeQuestion_plain, of lc s]
  obtain e where "encodeURIComponent (normalizeQuestion lc s) = Inr e" "\<forall>c \<in> set e. c \<le> 255"
    by blast
  then show ?thesis by (simp add: hashQuestion_def btoa_def)
qed

lemma hashQuestion_canonical_eq:
  "canonical lc s = canonical lc t \<Longrightarrow> hashQuestion lc s = hashQuestion lc t"
  by (simp add: hashQuestion_def normalizeQuestion_canonical)


subsection \<open>Every check of a keyword returns\<close>

lemma hashAll_total: "\<exists>hashes. hashAll lc qs = Inr hashes"
proof (induction qs)
  case Nil
  show ?case by simp
next
  case (Cons x qs)
  from hashQuestion_Inr[of lc "f_question x"] obtain h where "hashQuestion lc (f_question x) = Inr h"
    by blast
  with Cons show ?case by auto
qed

lemma checkKeyword_total: "\<exists>diff writes. checkKeyword lc rows currentPAA = Inr (diff, writes)"
proof -
  from hashAll_total[of lc currentPAA] obtain hashes where "hashAll lc currentPAA = Inr hashes"
    by blast
  then show ?thesis by (simp add: checkKeyword_def Let_def)
qed


section \<open>A tracked keyword with three questions\<close>

definition trackedRows :: "PAAQuestion list" where
  "trackedRows =
     [\<lparr>q_id = js ''q1'', pq_question = js ''what is x'',
       question_hash = js ''d2hhdCUyMGlzJTIweA=='', times_seen = 1, avg_position = Some 0\<rparr>,
      \<lparr>q_id = js ''q2'', pq_question = js ''why is x'',
       question_hash = js ''d2h5JTIwaXMlMjB4'', times_seen = 1, avg_position = Some 1\<rparr>,
      \<lparr>q_id = js ''q3'', pq_question = js ''how is x'',
       question_hash = js ''aG93JTIwaXMlMjB4'', times_seen = 1, avg_position = Some 2\<rparr>]"

definition whatIsX :: PAAFetchResult where
  "whatIsX = \<lparr>f_question = js ''what is x'', f_type = js ''definition''\<rparr>"

definition whyIsX :: PAAFetchResult where
  "whyIsX = \<lparr>f_question = js ''why is x'', f_type = js ''explanation''\<rparr>"

definition howIsX :: PAAFetchResult where
  "howIsX = \<lparr>f_question = js ''how is x'', f_type = js ''paragraph''\<rparr>"

lemmas tracked_defs = trackedRows_def whatIsX_def whyIsX_def howIsX_def

definition previousAB :: "prev_entry list" where
  "previousAB = [\<lparr>p_question = js ''what is x'', p_hash = js ''d2hhdCUyMGlzJTIweA==''\<rparr>,
                 \<lparr>p_question = js ''why is x'', p_hash = js ''d2h5JTIwaXMlMjB4''\<rparr>]"

definition currentBA :: "curr_entry list" where
  "currentBA = [\<lparr>cq_question = js ''why is x'', cq_hash = js ''d2h5JTIwaXMlMjB4'',
                  cq_position = 0, cq_type = js ''explanation''\<rparr>,
                \<lparr>cq_question = js ''what is x'', cq_hash = js ''d2hhdCUyMGlzJTIweA=='',
                  cq_position = 1, cq_type = js ''definition''\<rparr>]"

definition currentCD :: "curr_entry list" where
  "currentCD = [\<lparr>cq_question = js ''how is x'', cq_hash = js ''aG93JTIwaXMlMjB4'',
                  cq_position = 0, cq_type = js ''paragraph''\<rparr>,
                \<lparr>cq_question = js ''whats x'', cq_hash = js ''d2hhdHMlMjB4'',
                  cq_position = 1, cq_type = js ''paragraph''\<rparr>]"

definition spelledBefore :: prev_entry where
  "spelledBefore = \<lparr>p_question = js ''What is X?'', p_hash = js ''d2hhdCUyMGlzJTIweA==''\<rparr>"

definition spelledNow :: curr_entry where
  "spelledNow = \<lparr>cq_question = js ''  what   is x'', cq_hash = js ''d2hhdCUyMGlzJTIweA=='',
                  cq_position = 0, cq_type = js ''definition''\<rparr>"

definition withoutApostrophe :: prev_entry where
  "withoutApostrophe = \<lparr>p_question = js ''whats x'', p_hash = js ''d2hhdHMlMjB4''\<rparr>"

definition withApostrophe :: curr_entry where
  "withApostrophe = \<lparr>cq_question = js ''what'' @ [39] @ js ''s x'',
                      cq_hash = js ''d2hhdCdzJTIweA=='', cq_position = 0,
                      cq_type = js ''definition''\<rparr>"

lemma hashQuestion_whatIsX:
  "hashQuestion toLowerCaseAscii (js ''what is x'') = Inr (js ''d2hhdCUyMGlzJTIweA=='')"
  by (simp add: nq_defs hash_defs)

lemma hashQuestion_whyIsX:
  "hashQuestion toLowerCaseAscii (js ''why is x'') = Inr (js ''d2h5JTIwaXMlMjB4'')"
  by (simp add: nq_defs hash_defs)

lemma hashQuestion_howIsX:
  "hashQuestion toLowerCaseAscii (js ''how is x'') = Inr (js ''aG93JTIwaXMlMjB4'')"
  by (simp add: nq_defs hash_defs)

lemma hashQuestion_spelled:
  "hashQuestion toLowerCaseAscii (js ''What is X?'') = Inr (js ''d2hhdCUyMGlzJTIweA=='')"
  "hashQuestion toLowerCaseAscii (js ''  what   is x'') = Inr (js ''d2hhdCUyMGlzJTIweA=='')"
  by (simp_all add: nq_defs hash_defs)

lemma canonical_spelled:
  "canonical toLowerCaseAscii (js ''What is X?'') = js ''what is x''"
  "canonical toLowerCaseAscii (js ''  what   is x'') = js ''what is x''"
  by (simp_all add: canonical_def nq_defs)

lemma hashQuestion_apostrophe:
  "hashQuestion toLowerCaseAscii (js ''what'' @ [39] @ js ''s x'') = Inr (js ''d2hhdCdzJTIweA=='')"
  "hashQuestion toLowerCaseAscii (js ''whats x'') = Inr (js ''d2hhdHMlMjB4'')"
  by (simp_all add: nq_defs hash_defs)

lemma hashQuestion_article:
  "hashQuestion toLowerCaseAscii (js ''what is the best x'') =
     Inr (js ''d2hhdCUyMGlzJTIwJTIwYmVzdCUyMHg='')"
  "hashQuestion toLowerCaseAscii (js ''what is best x'') =
     Inr (js ''d2hhdCUyMGlzJTIwYmVzdCUyMHg='')"
  by (simp_all add: nq_defs hash_defs)

lemma normalizeQuestion_article:
  "normalizeQuestion toLowerCaseAscii (js ''what is the best x'') = js ''what is  best x''"
  "normalizeQuestion toLowerCaseAscii (js ''what is best x'') = js ''what is best x''"
  by (simp_all add: nq_defs)


lemma trackedRows_hash:
  assumes "j < length trackedRows"
  shows "question_hash (trackedRows ! j) = js ''d2hhdCUyMGlzJTIweA=='' \<longleftrightarrow> j = 0"
    and "question_hash (trackedRows ! j) = js ''d2h5JTIwaXMlMjB4'' \<longleftrightarrow> j = 1"
    and "question_hash (trackedRows ! j) = js ''aG93JTIwaXMlMjB4'' \<longleftrightarrow> j = 2"
proof -
  from assms have "j = 0 \<or> j = 1 \<or> j = 2" by (auto simp: trackedRows_def)
  then show "question_hash (trackedRows ! j) = js ''d2hhdCUyMGlzJTIweA=='' \<longleftrightarrow> j = 0"
    and "question_hash (trackedRows ! j) = js ''d2h5JTIwaXMlMjB4'' \<longleftrightarrow> j = 1"
    and "question_hash (trackedRows ! j) = js ''aG93JTIwaXMlMjB4'' \<longleftrightarrow> j = 2"
    by (auto simp: trackedRows_def js_def)
qed

lemma trackedRows_hashes:
  "question_hash ` set trackedRows =
     {js ''d2hhdCUyMGlzJTIweA=='', js ''d2h5JTIwaXMlMjB4'', js ''aG93JTIwaXMlMjB4''}"
  by (simp add: trackedRows_def)


section \<open>Claims about the tracking worker\<close>

text \<open>
  C2.  In a check of a keyword, take the question at index \<open>i\<close> of the current list and
  its hash \<open>h\<close>.  When the question is retained (some previous row has hash \<open>h\<close>), let
  \<open>j\<close> be its previous index: the index of the first previous row of hash \<open>h\<close>.  The
  statements that insert a change of kind \<open>position_change\<close> for the question (new position
  \<open>i\<close>) are then exactly one, with old position \<open>j\<close> and new position \<open>i\<close>, when \<open>j\<close> and
  \<open>i\<close> differ by 2 or more, and none when they differ by 0 or 1.  There is none when the
  question is not retained.  The check returns whenever the fetch and the statements of
  the database succeed: no question makes \<open>hashQuestion\<close> throw.
\<close>

theorem checkKeyword_position_threshold:
  assumes "i < length currentPAA"
  shows "\<exists>diff writes h.
     checkKeyword lc rows currentPAA = Inr (diff, writes) \<and>
     hashQuestion lc (f_question (currentPAA ! i)) = Inr h \<and>
     (if h \<in> question_hash ` set rows then
        \<exists>j < length rows.
          question_hash (rows ! j) = h \<and> (\<forall>k < j. question_hash (rows ! k) \<noteq> h) \<and>
          filter (positionChangeFor i) writes =
            (if 2 \<le> \<bar>int j - int i\<bar>
             then [InsertChange position_change (f_question (currentPAA ! i)) h
                     (Some (int j)) (Some (int i))]
             else [])
      else filter (positionChangeFor i) writes = [])"
proof -
  obtain diff writes where ck: "checkKeyword lc rows currentPAA = Inr (diff, writes)"
    using checkKeyword_total by blast
  obtain h where h: "hashQuestion lc (f_question (currentPAA ! i)) = Inr h"
    using hashQuestion_Inr by blast
  note m = checkKeyword_moves[OF ck assms h]
  have "if h \<in> question_hash ` set rows then
        \<exists>j < length rows.
          question_hash (rows ! j) = h \<and> (\<forall>k < j. question_hash (rows ! k) \<noteq> h) \<and>
          filter (positionChangeFor i) writes =
            (if 2 \<le> \<bar>int j - int i\<bar>
             then [InsertChange position_change (f_question (currentPAA ! i)) h
                     (Some (int j)) (Some (int i))]
             else [])
      else filter (positionChangeFor i) writes = []"
  proof (cases "h \<in> question_hash ` set rows")
    case False
    with m show ?thesis by simp
  next
    case True
    then have "\<exists>x \<in> set rows. question_hash x = h" by auto
    from findIndex_first[of rows "\<lambda>p. question_hash p = h", OF this] obtain j where
      j: "j < length rows" "findIndex (\<lambda>p. question_hash p = h) rows = int j"
        "question_hash (rows ! j) = h" "\<forall>k < j. question_hash (rows ! k) \<noteq> h"
      by blast
    from m True j(2) have "filter (positionChangeFor i) writes =
            (if 2 \<le> \<bar>int j - int i\<bar>
             then [InsertChange position_change (f_question (currentPAA ! i)) h
                     (Some (int j)) (Some (int i))]
             else [])" by simp
    with j True show ?thesis by auto
  qed
  with ck h show ?thesis by blast
qed

theorem checkKeyword_position_threshold_witness:
  "(\<exists>diff writes.
      checkKeyword toLowerCaseAscii trackedRows [whyIsX, howIsX, whatIsX] = Inr (diff, writes) \<and>
      filter (positionChangeFor 2) writes =
        [InsertChange position_change (js ''what is x'') (js ''d2hhdCUyMGlzJTIweA=='')
           (Some 0) (Some 2)]) \<and>
   (\<exists>diff writes.
      checkKeyword toLowerCaseAscii trackedRows [whyIsX, whatIsX] = Inr (diff, writes) \<and>
      filter (positionChangeFor 1) writes = []) \<and>
   (\<exists>diff writes.
      checkKeyword toLowerCaseAscii trackedRows [howIsX, whatIsX, whyIsX] = Inr (diff, writes) \<and>
      filter (positionChangeFor 0) writes =
        [InsertChange position_change (js ''how is x'') (js ''aG93JTIwaXMlMjB4'')
           (Some 2) (Some 0)] \<and>
      filter (positionChangeFor 2) writes = [])"
proof -
  have f: "f_question whatIsX = js ''what is x''" "f_question howIsX = js ''how is x''"
    "f_question whyIsX = js ''why is x''"
    by (simp_all add: whatIsX_def howIsX_def whyIsX_def)
  note hq = hashQuestion_whatIsX hashQuestion_howIsX hashQuestion_whyIsX
  have r: "js ''d2hhdCUyMGlzJTIweA=='' \<in> question_hash ` set trackedRows"
    "js ''aG93JTIwaXMlMjB4'' \<in> question_hash ` set trackedRows"
    "js ''d2h5JTIwaXMlMjB4'' \<in> question_hash ` set trackedRows"
    by (simp_all add: trackedRows_hashes)
  from checkKeyword_position_threshold[of 2 "[whyIsX, howIsX, whatIsX]" toLowerCaseAscii trackedRows]
  have a: "\<exists>diff writes.
      checkKeyword toLowerCaseAscii trackedRows [whyIsX, howIsX, whatIsX] = Inr (diff, writes) \<and>
      filter (positionChangeFor 2) writes =
        [InsertChange position_change (js ''what is x'') (js ''d2hhdCUyMGlzJTIweA=='')
           (Some 0) (Some 2)]"
    by (auto simp: f hq r trackedRows_hash)
  from checkKeyword_position_threshold[of 1 "[whyIsX, whatIsX]" toLowerCaseAscii trackedRows]
  have b: "\<exists>diff writes.
      checkKeyword toLowerCaseAscii trackedRows [whyIsX, whatIsX] = Inr (diff, writes) \<and>
      filter (positionChangeFor 1) writes = []"
    by (auto simp: f hq r trackedRows_hash)
  from checkKeyword_position_threshold[of 0 "[howIsX, whatIsX, whyIsX]" toLowerCaseAscii trackedRows]
  obtain diff writes where c0:
      "checkKeyword toLowerCaseAscii trackedRows [howIsX, whatIsX, whyIsX] = Inr (diff, writes)"
      "filter (positionChangeFor 0) writes =
        [InsertChange position_change (js ''how is x'') (js ''aG93JTIwaXMlMjB4'')
           (Some 2) (Some 0)]"
    by (auto simp: f hq r trackedRows_hash)
  from checkKeyword_position_threshold[of 2 "[howIsX, whatIsX, whyIsX]" toLowerCaseAscii trackedRows]
    c0(1)
  have c2: "filter (positionChangeFor 2) writes = []"
    by (auto simp: f hq r trackedRows_hash)
  from a b c0 c2 show ?thesis by blast
qed

text \<open>
  C8.  For \<open>diffPAALists\<close>: when the previous and the current list have the same hashes,
  \<open>added\<close> and \<open>removed\<close> are empty; when no hash is in both lists, \<open>added\<close> is the whole
  current list and \<open>removed\<close> the whole previous list, so each has \<open>N\<close> entries for lists of \<open>N\<close>
  entries, and there are no position changes.
\<close>

theorem diffPAALists_identical_disjoint:
  "(set (map p_hash previous) = set (map cq_hash current) \<longrightarrow>
      added (diffPAALists previous current) = [] \<and>
      removed (diffPAALists previous current) = []) \<and>
   (set (map p_hash previous) \<inter> set (map cq_hash current) = {} \<and>
    length previous = N \<and> length current = N \<longrightarrow>
      added (diffPAALists previous current) = current \<and>
      removed (diffPAALists previous current) = previous \<and>
      length (added (diffPAALists previous current)) = N \<and>
      length (removed (diffPAALists previous current)) = N \<and>
      positionChanges (diffPAALists previous current) = [])"
  using diff_identical[of previous current] diff_disjoint[of previous current] by simp


theorem diffPAALists_identical_disjoint_witness:
  "added (diffPAALists previousAB currentBA) = [] \<and>
   removed (diffPAALists previousAB currentBA) = [] \<and>
   length (added (diffPAALists previousAB currentCD)) = 2 \<and>
   length (removed (diffPAALists previousAB currentCD)) = 2 \<and>
   positionChanges (diffPAALists previousAB currentCD) = []"
proof -
  have same: "set (map p_hash previousAB) = set (map cq_hash currentBA)"
    by (auto simp: previousAB_def currentBA_def)
  have apart: "set (map p_hash previousAB) \<inter> set (map cq_hash currentCD) = {}"
    by (simp add: previousAB_def currentCD_def js_def)
  have len: "length previousAB = 2" "length currentCD = 2"
    by (simp_all add: previousAB_def currentCD_def)
  from diffPAALists_identical_disjoint[of previousAB currentBA 2]
    diffPAALists_identical_disjoint[of previousAB currentCD 2] same apart len
  show ?thesis by simp
qed

text \<open>
  C10 as the specification states it fails.  \<open>normalizeQuestion\<close> keeps apostrophes, so
  "what's x" and "whats x" have different hashes and the diff lists the one as added and
  the other as removed.  And an article inside a sentence leaves the two spaces around it,
  so "what is the best x" and "what is best x" have different hashes.
\<close>

theorem hashQuestion_apostrophe_article_differ:
  "hashQuestion toLowerCaseAscii (js ''what'' @ [39] @ js ''s x'') = Inr (js ''d2hhdCdzJTIweA=='') \<and>
   hashQuestion toLowerCaseAscii (js ''whats x'') = Inr (js ''d2hhdHMlMjB4'') \<and>
   hashQuestion toLowerCaseAscii (js ''what'' @ [39] @ js ''s x'') \<noteq>
     hashQuestion toLowerCaseAscii (js ''whats x'') \<and>
   added (diffPAALists [withoutApostrophe] [withApostrophe]) = [withApostrophe] \<and>
   removed (diffPAALists [withoutApostrophe] [withApostrophe]) = [withoutApostrophe] \<and>
   hashQuestion toLowerCaseAscii (js ''what is the best x'') =
     Inr (js ''d2hhdCUyMGlzJTIwJTIwYmVzdCUyMHg='') \<and>
   hashQuestion toLowerCaseAscii (js ''what is best x'') =
     Inr (js ''d2hhdCUyMGlzJTIwYmVzdCUyMHg='') \<and>
   hashQuestion toLowerCaseAscii (js ''what is the best x'') \<noteq>
     hashQuestion toLowerCaseAscii (js ''what is best x'')"
proof -
  have "added (diffPAALists [withoutApostrophe] [withApostrophe]) = [withApostrophe]"
    "removed (diffPAALists [withoutApostrophe] [withApostrophe]) = [withoutApostrophe]"
    by (simp_all add: diffPAALists_def withoutApostrophe_def withApostrophe_def js_def)
  then show ?thesis
    unfolding hashQuestion_apostrophe hashQuestion_article by (simp add: js_def)
qed

text \<open>
  C10, amended.  \<open>hashQuestion\<close> returns an identifier for every text, and the same
  identifier for two texts that are equal once they are put in lower case, every character
  other than a letter or digit of ASCII, an underscore, white space or an apostrophe is
  removed, every run of white space is made one space and the ends are trimmed.  So texts
  that differ only in letter case, in punctuation other than apostrophes and underscores,
  or in the amount of white space have the same hash.  \<open>diffPAALists\<close> compares hashes
  only: when one of two such texts is in the previous list and the other in the current
  list, under their hash, the one is not among the removed and the other not among the
  added entries.
\<close>

theorem hashQuestion_canonical:
  assumes "canonical lc s = canonical lc t"
  shows "\<exists>h. hashQuestion lc s = Inr h \<and> hashQuestion lc t = Inr h \<and>
     (\<forall>previous current p c.
        p \<in> set previous \<and> p_hash p = h \<and> c \<in> set current \<and> cq_hash c = h \<longrightarrow>
        c \<notin> set (added (diffPAALists previous current)) \<and>
        p \<notin> set (removed (diffPAALists previous current)))"
proof -
  obtain h where h: "hashQuestion lc s = Inr h" using hashQuestion_Inr by blast
  with hashQuestion_canonical_eq[OF assms] have h': "hashQuestion lc t = Inr h" by simp
  have "c \<notin> set (added (diffPAALists previous current)) \<and>
        p \<notin> set (removed (diffPAALists previous current))"
    if "p \<in> set previous \<and> p_hash p = h \<and> c \<in> set current \<and> cq_hash c = h"
    for previous current p c
  proof -
    from that have "cq_hash c \<in> set (map p_hash previous)" "p_hash p \<in> set (map cq_hash current)"
      by force+
    then show ?thesis by (simp add: diffPAALists_def)
  qed
  with h h' show ?thesis by blast
qed

theorem hashQuestion_canonical_witness:
  "hashQuestion toLowerCaseAscii (js ''What is X?'') = Inr (js ''d2hhdCUyMGlzJTIweA=='') \<and>
   hashQuestion toLowerCaseAscii (js ''  what   is x'') = Inr (js ''d2hhdCUyMGlzJTIweA=='') \<and>
   added (diffPAALists [spelledBefore] [spelledNow]) = [] \<and>
   removed (diffPAALists [spelledBefore] [spelledNow]) = []"
proof -
  have "canonical toLowerCaseAscii (js ''What is X?'') =
        canonical toLowerCaseAscii (js ''  what   is x'')"
    by (simp only: canonical_spelled)
  from hashQuestion_canonical[OF this] obtain h where
    h: "hashQuestion toLowerCaseAscii (js ''What is X?'') = Inr h"
      "hashQuestion toLowerCaseAscii (js ''  what   is x'') = Inr h"
    and d: "\<And>previous current p c.
        p \<in> set previous \<and> p_hash p = h \<and> c \<in> set current \<and> cq_hash c = h \<Longrightarrow>
        c \<notin> set (added (diffPAALists previous current)) \<and>
        p \<notin> set (removed (diffPAALists previous current))"
    by blast
  from h(1) have hv: "h = js ''d2hhdCUyMGlzJTIweA==''" by (simp add: hashQuestion_spelled)
  have "spelledNow \<notin> set (added (diffPAALists [spelledBefore] [spelledNow])) \<and>
        spelledBefore \<notin> set (removed (diffPAALists [spelledBefore] [spelledNow]))"
    by (rule d) (simp add: hv spelledBefore_def spelledNow_def)
  then have "added (diffPAALists [spelledBefore] [spelledNow]) = []"
    "removed (diffPAALists [spelledBefore] [spelledNow]) = []"
    by (simp_all add: diffPAALists_def split: if_splits)
  with h hv show ?thesis by simp
qed

end
